theory Spec2Isabelle
  imports Main "HOL-Library.Monad_Syntax"
begin

section \<open>Croner: the pattern compiler and the next-occurrence engine\<close>

text \<open>
  A shallow embedding of \<^verbatim>\<open>src/croner.js\<close>. Pattern strings are Latin-1 character
  lists. JavaScript numbers that the code computes with are integers here; the value
  \<^verbatim>\<open>NaN\<close> is \<open>None\<close> of \<open>int option\<close> wherever the code can produce it.
  Every \<^verbatim>\<open>raise\<close> of the source is an \<open>Inl\<close> of the result, and a loop that the
  source does not bound is a \<^theory_text>\<open>partial_function\<close> in the option monad, so that
  not returning is the value \<open>None\<close>.
\<close>

subsection \<open>Errors\<close>

text \<open>One constructor for each call of \<^verbatim>\<open>raise\<close>, in the order of the source.\<close>

datatype error =
    InvalidConfigurationFormat string
  | IllegalCharacters nat string
  | CombineMonthDateWithDayOfWeek
  | IllegalRange string
  | IllegalLowerRange
  | IllegalUpperRange
  | ValueOutOfRange string
  | FromLargerThanTo string
  | IllegalStepping string
  | LeftPartNotStar string
  | IllegalSteppingNaN
  | IllegalSteppingZero
  | StepsTooGreat nat
  | PartValueOutOfRange string string
  | StartAtNotParsed
  | StopAtNotParsed
  | TypeErrorUndefinedOptions

definition raise :: "error \<Rightarrow> error + 'a" where
  "raise err = Inl err"

subsection \<open>Host strings\<close>

text \<open>White space of \<^verbatim>\<open>String.prototype.trim\<close> and of the class \<^verbatim>\<open>\s\<close>, within Latin-1:
  tab, line feed, vertical tab, form feed, carriage return, space, no-break space.\<close>

definition isWhiteSpace :: "char \<Rightarrow> bool" where
  "isWhiteSpace c = (of_char c \<in> {9::nat, 10, 11, 12, 13, 32, 160})"

definition trim :: "string \<Rightarrow> string" where
  "trim s = rev (dropWhile isWhiteSpace (rev (dropWhile isWhiteSpace s)))"

text \<open>\<^verbatim>\<open>s.replace(/\s+/g, " ")\<close>: every maximal run of white space becomes one space.\<close>

function replace_ws :: "string \<Rightarrow> string" where
  "replace_ws [] = []"
| "replace_ws (c # cs) =
     (if isWhiteSpace c then CHR '' '' # replace_ws (dropWhile isWhiteSpace cs)
      else c # replace_ws cs)"
  by pat_completeness auto
termination
  by (relation "measure length") (auto simp: le_imp_less_Suc length_dropWhile_le)

text \<open>\<^verbatim>\<open>s.split(sep)\<close> for a separator of one character; the empty string gives one
  empty piece.\<close>

fun split :: "char \<Rightarrow> string \<Rightarrow> string list" where
  "split sep [] = [[]]"
| "split sep (c # cs) =
     (if c = sep then [] # split sep cs
      else (case split sep cs of
              [] \<Rightarrow> [[c]]
            | p # ps \<Rightarrow> (c # p) # ps))"

text \<open>\<^verbatim>\<open>s.indexOf(c) !== -1\<close>.\<close>

definition contains :: "string \<Rightarrow> char \<Rightarrow> bool" where
  "contains s c = (c \<in> set s)"

definition isDigit :: "char \<Rightarrow> bool" where
  "isDigit c = (48 \<le> (of_char c :: nat) \<and> (of_char c :: nat) \<le> 57)"

definition digitValue :: "char \<Rightarrow> int" where
  "digitValue c = int (of_char c) - 48"

text \<open>\<^verbatim>\<open>parseInt(s, 10)\<close>: leading white space is skipped, one sign is read, then the
  longest run of decimal digits; no digit gives \<^verbatim>\<open>NaN\<close>.\<close>

definition parseDigits :: "string \<Rightarrow> int option" where
  "parseDigits s =
     (let ds = takeWhile isDigit s
      in if ds = [] then None else Some (foldl (\<lambda>a c. 10 * a + digitValue c) 0 ds))"

definition parseInt :: "string \<Rightarrow> int option" where
  "parseInt s =
     (case dropWhile isWhiteSpace s of
        [] \<Rightarrow> None
      | c # cs \<Rightarrow>
          if c = CHR ''-'' then map_option uminus (parseDigits cs)
          else if c = CHR ''+'' then parseDigits cs
          else parseDigits (c # cs))"

subsection \<open>Host arrays\<close>

text \<open>
  An array of the flags 0 and 1 is the list of the truth values of its elements, whose
  length is \<^verbatim>\<open>length\<close>, together with the keys of its other properties. A key is an
  integer or \<^verbatim>\<open>NaN\<close> (\<open>None\<close>): a write under a negative key or under \<^verbatim>\<open>NaN\<close> creates a
  property that is not an element and leaves \<^verbatim>\<open>length\<close> alone. Only the value 1 is ever
  written, so a property is known by its key. A read of a key never written is
  \<^verbatim>\<open>undefined\<close>, which is falsy.
\<close>

record jsarray =
  elems :: "bool list"
  props :: "int option list"

definition len :: "jsarray \<Rightarrow> nat" where
  "len arr = length (elems arr)"

text \<open>Whether \<^verbatim>\<open>arr[k]\<close> is truthy.\<close>

definition truthy :: "jsarray \<Rightarrow> int option \<Rightarrow> bool" where
  "truthy arr k =
     (case k of
        Some i \<Rightarrow> if 0 \<le> i then i < int (len arr) \<and> elems arr ! nat i else k \<in> set (props arr)
      | None \<Rightarrow> k \<in> set (props arr))"

text \<open>\<^verbatim>\<open>fill(Array(n), 0)\<close>.\<close>

definition fill :: "nat \<Rightarrow> jsarray" where
  "fill n = \<lparr> elems = replicate n False, props = [] \<rparr>"

text \<open>\<^verbatim>\<open>arr[k] = 1\<close>; a write at or past \<^verbatim>\<open>length\<close> extends the array.\<close>

definition put1 :: "jsarray \<Rightarrow> int option \<Rightarrow> jsarray" where
  "put1 arr k =
     (case k of
        Some i \<Rightarrow>
          if 0 \<le> i then
            (if i < int (len arr) then arr\<lparr> elems := (elems arr)[nat i := True] \<rparr>
             else arr\<lparr> elems := elems arr @ replicate (nat i - len arr) False @ [True] \<rparr>)
          else arr\<lparr> props := List.insert k (props arr) \<rparr>
      | None \<Rightarrow> arr\<lparr> props := List.insert k (props arr) \<rparr>)"

subsection \<open>CronPattern\<close>

text \<open>The names of the members that the code reaches through \<^verbatim>\<open>this[type]\<close>,
  \<^verbatim>\<open>pattern[target]\<close> and \<^verbatim>\<open>self[target]\<close>.\<close>

datatype member = Seconds | Minutes | Hours | Days | Months | DaysOfWeek | Years

text \<open>A pattern holds its source text and one array for each of the six parts.\<close>

record CronPattern =
  pattern :: string
  secondsP :: jsarray
  minutesP :: jsarray
  hoursP :: jsarray
  daysP :: jsarray
  monthsP :: jsarray
  daysOfWeekP :: jsarray

text \<open>\<^verbatim>\<open>this[type]\<close> and \<^verbatim>\<open>pattern[target]\<close>. The key \<open>Years\<close> names no array of a pattern
  and is never looked up in one.\<close>

definition part :: "CronPattern \<Rightarrow> member \<Rightarrow> jsarray" where
  "part this type =
     (case type of Seconds \<Rightarrow> secondsP this | Minutes \<Rightarrow> minutesP this | Hours \<Rightarrow> hoursP this
      | Days \<Rightarrow> daysP this | Months \<Rightarrow> monthsP this | DaysOfWeek \<Rightarrow> daysOfWeekP this
      | Years \<Rightarrow> fill 0)"

text \<open>The array \<^verbatim>\<open>this[type]\<close> after the writes that made it \<open>arr\<close>.\<close>

definition set_part :: "CronPattern \<Rightarrow> member \<Rightarrow> jsarray \<Rightarrow> CronPattern" where
  "set_part this type arr =
     (case type of Seconds \<Rightarrow> this\<lparr>secondsP := arr\<rparr> | Minutes \<Rightarrow> this\<lparr>minutesP := arr\<rparr>
      | Hours \<Rightarrow> this\<lparr>hoursP := arr\<rparr> | Days \<Rightarrow> this\<lparr>daysP := arr\<rparr>
      | Months \<Rightarrow> this\<lparr>monthsP := arr\<rparr> | DaysOfWeek \<Rightarrow> this\<lparr>daysOfWeekP := arr\<rparr>
      | Years \<Rightarrow> this)"

definition memberName :: "member \<Rightarrow> string" where
  "memberName m =
     (case m of Seconds \<Rightarrow> ''seconds'' | Minutes \<Rightarrow> ''minutes'' | Hours \<Rightarrow> ''hours''
      | Days \<Rightarrow> ''days'' | Months \<Rightarrow> ''months'' | DaysOfWeek \<Rightarrow> ''daysOfWeek''
      | Years \<Rightarrow> ''years'')"

text \<open>\<^verbatim>\<open>lower + valueIndexOffset\<close> and the like: \<^verbatim>\<open>NaN\<close> stays \<^verbatim>\<open>NaN\<close>.\<close>

definition plus_offset :: "int option \<Rightarrow> int \<Rightarrow> int option" where
  "plus_offset v off = map_option (\<lambda>n. n + off) v"

text \<open>The loop \<^verbatim>\<open>for (i = lower; i <= upper; i++) arr[i + valueIndexOffset] = 1\<close>.\<close>

definition mark_range :: "jsarray \<Rightarrow> int \<Rightarrow> int \<Rightarrow> int \<Rightarrow> jsarray" where
  "mark_range arr lower upper valueIndexOffset =
     foldl (\<lambda>a i. put1 a (Some (i + valueIndexOffset))) arr [lower..upper]"

text \<open>The loop \<^verbatim>\<open>for (i = 0; i < arr.length; i += steps) arr[i + valueIndexOffset] = 1\<close>,
  for \<open>0 < steps\<close>. The bound \<^verbatim>\<open>arr.length\<close> is read again at every turn; no write of
  this loop is at or past it, so it is the length at entry.\<close>

definition mark_steps :: "jsarray \<Rightarrow> int \<Rightarrow> int \<Rightarrow> jsarray" where
  "mark_steps arr steps valueIndexOffset =
     foldl (\<lambda>a i. put1 a (Some (i + valueIndexOffset))) arr
       (filter (\<lambda>i. i mod steps = 0) [0..int (len arr) - 1])"

text \<open>The three branches of \<^verbatim>\<open>partToArray\<close> that do not recurse: a range, a stepping,
  a number. Comparisons with \<^verbatim>\<open>NaN\<close> are false, so the number branch lets \<^verbatim>\<open>NaN\<close>
  through its range check and writes the property \<^verbatim>\<open>NaN\<close>.\<close>

definition rangeToArray :: "jsarray \<Rightarrow> string \<Rightarrow> int \<Rightarrow> error + jsarray" where
  "rangeToArray arr conf valueIndexOffset =
     (let split = split CHR ''-'' conf in
      if length split \<noteq> 2 then raise (IllegalRange conf)
      else
        case plus_offset (parseInt (split ! 0)) valueIndexOffset of
          None \<Rightarrow> raise IllegalLowerRange
        | Some lower \<Rightarrow>
           (case plus_offset (parseInt (split ! 1)) valueIndexOffset of
              None \<Rightarrow> raise IllegalUpperRange
            | Some upper \<Rightarrow>
                if lower < 0 \<or> upper \<ge> int (len arr) then raise (ValueOutOfRange conf)
                else if lower > upper then raise (FromLargerThanTo conf)
                else Inr (mark_range arr lower upper valueIndexOffset)))"

definition steppingToArray :: "jsarray \<Rightarrow> string \<Rightarrow> int \<Rightarrow> error + jsarray" where
  "steppingToArray arr conf valueIndexOffset =
     (let split = split CHR ''/'' conf in
      if length split \<noteq> 2 then raise (IllegalStepping conf)
      else if split ! 0 \<noteq> ''*'' then raise (LeftPartNotStar conf)
      else
        case parseInt (split ! 1) of
          None \<Rightarrow> raise IllegalSteppingNaN
        | Some steps \<Rightarrow>
            if steps = 0 then raise IllegalSteppingZero
            else if steps > int (len arr) then raise (StepsTooGreat (len arr))
            else Inr (mark_steps arr steps valueIndexOffset))"

definition numberToArray :: "jsarray \<Rightarrow> member \<Rightarrow> string \<Rightarrow> int \<Rightarrow> error + jsarray" where
  "numberToArray arr type conf valueIndexOffset =
     (case plus_offset (parseInt conf) valueIndexOffset of
        None \<Rightarrow> Inr (put1 arr None)
      | Some i \<Rightarrow>
          if i < 0 \<or> i \<ge> int (len arr) then raise (PartValueOutOfRange (memberName type) conf)
          else Inr (put1 arr (Some i)))"

text \<open>\<^verbatim>\<open>CronPattern.prototype.partToArray\<close>. The recursion into the comma separated
  entries is \<open>partsToArray\<close>, which stops at the first entry that raises.\<close>

lemma split_piece_free: "p \<in> set (split sep s) \<Longrightarrow> sep \<notin> set p"
proof (induction s arbitrary: p)
  case Nil
  then show ?case by simp
next
  case (Cons c cs)
  then show ?case
    by (cases "split sep cs") (auto split: if_splits)
qed

lemma split_single: "sep \<notin> set s \<Longrightarrow> split sep s = [s]"
  by (induction s) auto

lemma split_many: "1 < length (split sep s) \<Longrightarrow> sep \<in> set s"
  using split_single [of sep s] by (cases "sep \<in> set s") auto

function partToArray :: "CronPattern \<Rightarrow> member \<Rightarrow> string \<Rightarrow> int \<Rightarrow> error + CronPattern"
  and partsToArray :: "CronPattern \<Rightarrow> member \<Rightarrow> string list \<Rightarrow> int \<Rightarrow> error + CronPattern"
where
  "partToArray this type conf valueIndexOffset =
     (if conf = ''*'' then
        Inr (set_part this type
               (foldl (\<lambda>a i. put1 a (Some (int i))) (part this type) [0..<len (part this type)]))
      else if length (split CHR '','' conf) > 1 then
        partsToArray this type (split CHR '','' conf) valueIndexOffset
      else if contains conf CHR ''-'' then
        map_sum id (set_part this type) (rangeToArray (part this type) conf valueIndexOffset)
      else if contains conf CHR ''/'' then
        map_sum id (set_part this type) (steppingToArray (part this type) conf valueIndexOffset)
      else
        map_sum id (set_part this type) (numberToArray (part this type) type conf valueIndexOffset))"
| "partsToArray this type [] valueIndexOffset = Inr this"
| "partsToArray this type (s # ss) valueIndexOffset =
     (case partToArray this type s valueIndexOffset of
        Inl err \<Rightarrow> Inl err
      | Inr this' \<Rightarrow> partsToArray this' type ss valueIndexOffset)"
  by pat_completeness auto
termination
proof (relation "measures
    [\<lambda>x. case x of
            Inl (this, type, conf, off) \<Rightarrow> if CHR '','' \<in> set conf then 2 else 0
          | Inr (this, type, confs, off) \<Rightarrow> if \<forall>s \<in> set confs. CHR '','' \<notin> set s then 1 else 3,
     \<lambda>x. case x of
            Inl (this, type, conf, off) \<Rightarrow> 0
          | Inr (this, type, confs, off) \<Rightarrow> length confs]", goal_cases)
  case 1
  then show ?case by simp
next
  case (2 this type conf valueIndexOffset)
  then show ?case
    using split_many [of "CHR '',''" conf] split_piece_free [of _ "CHR '',''" conf] by auto
next
  case (3 this type s ss valueIndexOffset)
  then show ?case by auto
next
  case (4 this type s ss valueIndexOffset x2)
  then show ?case by auto
qed

declare partToArray.simps [simp del]

text \<open>The constructor: six arrays of zeros, then \<^verbatim>\<open>parse\<close>.\<close>

definition emptyPattern :: "string \<Rightarrow> CronPattern" where
  "emptyPattern s =
     \<lparr> pattern = s, secondsP = fill 60, minutesP = fill 60, hoursP = fill 24,
       daysP = fill 31, monthsP = fill 12, daysOfWeekP = fill 8 \<rparr>"

text \<open>\<^verbatim>\<open>this.pattern.trim().replace(/\s+/g, " ").split(" ")\<close>.\<close>

definition splitParts :: "string \<Rightarrow> string list" where
  "splitParts s = split CHR '' '' (replace_ws (trim s))"

text \<open>\<^verbatim>\<open>reValidCron.test(part)\<close> with \<^verbatim>\<open>reValidCron = /[^/*0-9,-]+/\<close>: some character
  of the part is none of \<^verbatim>\<open>/ * , -\<close> and no digit.\<close>

definition isLegal :: "char \<Rightarrow> bool" where
  "isLegal c = (c = CHR ''/'' \<or> c = CHR ''*'' \<or> isDigit c \<or> c = CHR '','' \<or> c = CHR ''-'')"

definition reValidCron_test :: "string \<Rightarrow> bool" where
  "reValidCron_test s = list_ex (\<lambda>c. \<not> isLegal c) s"

text \<open>The loop that validates the field content, \<open>i\<close> counting from 0.\<close>

fun validateParts :: "nat \<Rightarrow> string list \<Rightarrow> error + unit" where
  "validateParts i [] = Inr ()"
| "validateParts i (p # ps) =
     (if reValidCron_test (trim p) then raise (IllegalCharacters (i + 1) (trim p))
      else validateParts (i + 1) ps)"

text \<open>The six calls of \<^verbatim>\<open>partToArray\<close>, in order, as one chain.\<close>

fun partsOfPattern :: "CronPattern \<Rightarrow> (member \<times> string \<times> int) list \<Rightarrow> error + CronPattern" where
  "partsOfPattern this [] = Inr this"
| "partsOfPattern this ((type, conf, off) # rest) =
     (case partToArray this type conf off of
        Inl err \<Rightarrow> Inl err
      | Inr this' \<Rightarrow> partsOfPattern this' rest)"

text \<open>\<^verbatim>\<open>CronPattern.prototype.parse\<close>. The pattern is a string by its type, so the first
  check of the source cannot raise.\<close>

definition parse :: "CronPattern \<Rightarrow> error + CronPattern" where
  "parse this =
     (let parts = splitParts (pattern this) in
      if length parts \<noteq> 6 then raise (InvalidConfigurationFormat (pattern this))
      else
        case validateParts 0 parts of
          Inl err \<Rightarrow> Inl err
        | Inr _ \<Rightarrow>
           (let hasMonths = (parts ! 4 \<noteq> ''*'');
                hasDaysOfWeek = (parts ! 5 \<noteq> ''*'');
                hasDates = (parts ! 3 \<noteq> ''*'')
            in if hasDaysOfWeek \<and> (hasMonths \<or> hasDates) then raise CombineMonthDateWithDayOfWeek
               else
                 case partsOfPattern this
                        [(Seconds, parts ! 0, 0), (Minutes, parts ! 1, 0), (Hours, parts ! 2, 0),
                         (Days, parts ! 3, -1), (Months, parts ! 4, -1), (DaysOfWeek, parts ! 5, 0)] of
                   Inl err \<Rightarrow> Inl err
                 | Inr this' \<Rightarrow>
                     if truthy (part this' DaysOfWeek) (Some 7)
                     then Inr (set_part this' DaysOfWeek (put1 (part this' DaysOfWeek) (Some 0)))
                     else Inr this'))"

definition newCronPattern :: "string \<Rightarrow> error + CronPattern" where
  "newCronPattern s = parse (emptyPattern s)"

text \<open>The values that a part accepts, as the configuration counts them: the value \<open>v\<close>
  of a part with index offset \<open>off\<close> is the element \<open>v + off\<close> of its array.\<close>

definition indexOffset :: "member \<Rightarrow> int" where
  "indexOffset m = (if m = Days \<or> m = Months then -1 else 0)"

definition accepted :: "CronPattern \<Rightarrow> member \<Rightarrow> int set" where
  "accepted p m =
     {v. 0 \<le> v + indexOffset m \<and> v + indexOffset m < int (len (part p m))
         \<and> truthy (part p m) (Some (v + indexOffset m))}"

text \<open>The same as a list, for evaluation.\<close>

definition acceptedList :: "CronPattern \<Rightarrow> member \<Rightarrow> int list" where
  "acceptedList p m =
     map (\<lambda>i. i - indexOffset m)
       (filter (\<lambda>i. truthy (part p m) (Some i)) [0..int (len (part p m)) - 1])"

text \<open>The position of the part of a member among the six parts of an expression, in the
  order in which \<^verbatim>\<open>parse\<close> hands them to \<^verbatim>\<open>partToArray\<close>, and the parts of an expression
  that has \<open>conf\<close> for one member and \<^verbatim>\<open>*\<close> for the others.\<close>

definition partIndex :: "member \<Rightarrow> nat" where
  "partIndex m =
     (case m of Seconds \<Rightarrow> 0 | Minutes \<Rightarrow> 1 | Hours \<Rightarrow> 2 | Days \<Rightarrow> 3 | Months \<Rightarrow> 4
      | DaysOfWeek \<Rightarrow> 5 | Years \<Rightarrow> 6)"

definition onePart :: "member \<Rightarrow> string \<Rightarrow> string list" where
  "onePart m conf = (replicate 6 ''*'')[partIndex m := conf]"

subsection \<open>Host dates\<close>

text \<open>
  A valid \<^verbatim>\<open>Date\<close> is its time value, the milliseconds since 1970-01-01T00:00:00Z;
  \<open>None\<close> of \<open>int option\<close> is the time value \<^verbatim>\<open>NaN\<close> of an invalid \<^verbatim>\<open>Date\<close>. The
  functions are those of the ECMAScript specification of \<^verbatim>\<open>Date\<close>, in the proleptic
  Gregorian calendar. The local time zone of the host is taken to be UTC, with no
  daylight saving.
\<close>

definition msPerDay :: int where
  "msPerDay = 86400000"

definition Day :: "int \<Rightarrow> int" where
  "Day t = t div msPerDay"

definition DayFromYear :: "int \<Rightarrow> int" where
  "DayFromYear y = 365 * (y - 1970) + (y - 1969) div 4 - (y - 1901) div 100 + (y - 1601) div 400"

definition InLeapYear :: "int \<Rightarrow> bool" where
  "InLeapYear y = (y mod 4 = 0 \<and> (y mod 100 \<noteq> 0 \<or> y mod 400 = 0))"

text \<open>The year of a day number: the largest \<open>y\<close> with \<open>DayFromYear y \<le> d\<close>, found by
  an estimate that is off by one year at most.\<close>

definition YearFromDay :: "int \<Rightarrow> int" where
  "YearFromDay d =
     (let y = 1970 + (d * 400) div 146097
      in if DayFromYear (y + 1) \<le> d then y + 1
         else if d < DayFromYear y then y - 1
         else y)"

text \<open>The day within the year on which month \<open>m\<close> (0 to 11) starts.\<close>

definition monthStart :: "int \<Rightarrow> bool \<Rightarrow> int" where
  "monthStart m leap =
     (if m \<le> 0 then 0
      else if m = 1 then 31
      else ([59, 90, 120, 151, 181, 212, 243, 273, 304, 334] ! nat (min m 11 - 2))
           + (if leap then 1 else 0))"

definition MonthFromDayWithinYear :: "int \<Rightarrow> bool \<Rightarrow> int" where
  "MonthFromDayWithinYear dwy leap =
     int (length (filter (\<lambda>m. monthStart m leap \<le> dwy) [1..11]))"

definition YearFromTime :: "int \<Rightarrow> int" where
  "YearFromTime t = YearFromDay (Day t)"

definition DayWithinYear :: "int \<Rightarrow> int" where
  "DayWithinYear t = Day t - DayFromYear (YearFromTime t)"

definition MonthFromTime :: "int \<Rightarrow> int" where
  "MonthFromTime t = MonthFromDayWithinYear (DayWithinYear t) (InLeapYear (YearFromTime t))"

definition DateFromTime :: "int \<Rightarrow> int" where
  "DateFromTime t =
     DayWithinYear t - monthStart (MonthFromTime t) (InLeapYear (YearFromTime t)) + 1"

definition WeekDay :: "int \<Rightarrow> int" where
  "WeekDay t = (Day t + 4) mod 7"

definition HourFromTime :: "int \<Rightarrow> int" where
  "HourFromTime t = (t div 3600000) mod 24"

definition MinFromTime :: "int \<Rightarrow> int" where
  "MinFromTime t = (t div 60000) mod 60"

definition SecFromTime :: "int \<Rightarrow> int" where
  "SecFromTime t = (t div 1000) mod 60"

definition msFromTime :: "int \<Rightarrow> int" where
  "msFromTime t = t mod 1000"

definition MakeTime :: "int \<Rightarrow> int \<Rightarrow> int \<Rightarrow> int \<Rightarrow> int" where
  "MakeTime hour minute sec ms = hour * 3600000 + minute * 60000 + sec * 1000 + ms"

definition MakeDay :: "int \<Rightarrow> int \<Rightarrow> int \<Rightarrow> int" where
  "MakeDay year month date =
     (let ym = year + month div 12; mn = month mod 12
      in DayFromYear ym + monthStart mn (InLeapYear ym) + date - 1)"

definition MakeDate :: "int \<Rightarrow> int \<Rightarrow> int" where
  "MakeDate day time = day * msPerDay + time"

definition TimeClip :: "int \<Rightarrow> int option" where
  "TimeClip t = (if \<bar>t\<bar> > 8640000000000000 then None else Some t)"

text \<open>\<^verbatim>\<open>new Date(year, month, date, hours, minutes, seconds, ms)\<close>: a year from 0 to 99
  stands for 1900 plus that year.\<close>

definition newDate :: "int \<Rightarrow> int \<Rightarrow> int \<Rightarrow> int \<Rightarrow> int \<Rightarrow> int \<Rightarrow> int \<Rightarrow> int option" where
  "newDate year month date hour minute sec ms =
     (let yr = (if 0 \<le> year \<and> year \<le> 99 then 1900 + year else year)
      in TimeClip (MakeDate (MakeDay yr month date) (MakeTime hour minute sec ms)))"

text \<open>\<^verbatim>\<open>date.getDay()\<close>, \<^verbatim>\<open>NaN\<close> for an invalid date.\<close>

definition getDay :: "int option \<Rightarrow> int option" where
  "getDay date = map_option WeekDay date"

text \<open>\<^verbatim>\<open>date.setMilliseconds(0)\<close>.\<close>

definition setMilliseconds0 :: "int option \<Rightarrow> int option" where
  "setMilliseconds0 date =
     (case date of
        None \<Rightarrow> None
      | Some t \<Rightarrow> TimeClip (MakeDate (Day t)
                   (MakeTime (HourFromTime t) (MinFromTime t) (SecFromTime t) 0)))"

subsection \<open>CronDate\<close>

record CronDate =
  milliseconds :: int
  seconds :: int
  minutes :: int
  hours :: int
  days :: int
  months :: int
  years :: int

text \<open>The constructor, for a valid date with time value \<open>t\<close>.\<close>

definition newCronDate :: "int \<Rightarrow> CronDate" where
  "newCronDate t =
     \<lparr> milliseconds = msFromTime t, seconds = SecFromTime t, minutes = MinFromTime t,
       hours = HourFromTime t, days = DateFromTime t, months = MonthFromTime t,
       years = YearFromTime t \<rparr>"

definition getDate :: "CronDate \<Rightarrow> int option" where
  "getDate self =
     newDate (years self) (months self) (days self) (hours self) (minutes self)
       (seconds self) (milliseconds self)"

text \<open>\<^verbatim>\<open>self[target]\<close> and \<^verbatim>\<open>self[target] = v\<close>. No \<^verbatim>\<open>CronDate\<close> has a member
  \<^verbatim>\<open>daysOfWeek\<close> or is asked for one.\<close>

definition getMember :: "CronDate \<Rightarrow> member \<Rightarrow> int" where
  "getMember self m =
     (case m of Seconds \<Rightarrow> seconds self | Minutes \<Rightarrow> minutes self | Hours \<Rightarrow> hours self
      | Days \<Rightarrow> days self | Months \<Rightarrow> months self | Years \<Rightarrow> years self
      | DaysOfWeek \<Rightarrow> 0)"

definition setMember :: "CronDate \<Rightarrow> member \<Rightarrow> int \<Rightarrow> CronDate" where
  "setMember self m v =
     (case m of Seconds \<Rightarrow> self\<lparr>seconds := v\<rparr> | Minutes \<Rightarrow> self\<lparr>minutes := v\<rparr>
      | Hours \<Rightarrow> self\<lparr>hours := v\<rparr> | Days \<Rightarrow> self\<lparr>days := v\<rparr>
      | Months \<Rightarrow> self\<lparr>months := v\<rparr> | Years \<Rightarrow> self\<lparr>years := v\<rparr>
      | DaysOfWeek \<Rightarrow> self)"

text \<open>\<^verbatim>\<open>findNext\<close>: the first truthy key from \<open>startPos\<close> up to the last element. With
  an \<open>override\<close> the search starts at \<open>0 + offset\<close>, which is the key \<^verbatim>\<open>-1\<close> for the
  days. The result is whether a key was found, and the date.\<close>

definition findNext :: "CronDate \<Rightarrow> member \<Rightarrow> CronPattern \<Rightarrow> int \<Rightarrow> bool \<Rightarrow> bool \<times> CronDate" where
  "findNext self target pat offset override =
     (let startPos = (if \<not> override then getMember self target + offset else 0 + offset)
      in case List.find (\<lambda>i. truthy (part pat target) (Some i))
                [startPos..int (len (part pat target)) - 1] of
           Some i \<Rightarrow> (True, setMember self target (i - offset))
         | None \<Rightarrow> (False, self))"

definition toDo :: "(member \<times> member \<times> int) list" where
  "toDo = [(Seconds, Minutes, 0), (Minutes, Hours, 0), (Hours, Days, 0),
           (Days, Months, -1), (Months, Years, 0)]"

text \<open>The inner loop \<^verbatim>\<open>while (doing >= 0)\<close>: every member from \<open>doing\<close> back to the
  seconds is set to the first match of its part. It returns the date and the final
  \<open>doing\<close>.\<close>

function resetMembers :: "CronDate \<Rightarrow> CronPattern \<Rightarrow> int \<Rightarrow> CronDate \<times> int" where
  "resetMembers self pat doing =
     (if doing \<ge> 0 then
        resetMembers
          (snd (findNext self (fst (toDo ! nat doing)) pat (snd (snd (toDo ! nat doing))) True))
          pat (doing - 1)
      else (self, doing))"
  by pat_completeness auto
termination
  by (relation "measure (\<lambda>(self, pat, doing). nat (doing + 1))") auto

declare resetMembers.simps [simp del]

text \<open>The outer loop \<^verbatim>\<open>while (doing < 5)\<close>. Nothing in the source bounds the number of
  its turns.\<close>

partial_function (option) cascade :: "CronDate \<Rightarrow> CronPattern \<Rightarrow> int \<Rightarrow> CronDate option" where
  "cascade self pat doing =
     (if doing < 5 then
        (case findNext self (fst (toDo ! nat doing)) pat (snd (snd (toDo ! nat doing))) False of
           (found, self1) \<Rightarrow>
             if \<not> found then
               (case resetMembers
                       (setMember self1 (fst (snd (toDo ! nat doing)))
                          (getMember self1 (fst (snd (toDo ! nat doing))) + 1))
                       pat doing of
                  (self2, doing') \<Rightarrow> cascade self2 pat (doing' + 1))
             else cascade self1 pat (doing + 1))
      else Some self)"

declare cascade.simps [code]

text \<open>The loop \<^verbatim>\<open>while (!pattern.daysOfWeek[this.getDate().getDay()]) this.days += 1\<close>.
  The key of an invalid date is \<^verbatim>\<open>NaN\<close>.\<close>

partial_function (option) weekdayLoop :: "CronDate \<Rightarrow> CronPattern \<Rightarrow> CronDate option" where
  "weekdayLoop self pat =
     (if \<not> truthy (part pat DaysOfWeek) (getDay (getDate self))
      then weekdayLoop (self\<lparr>days := days self + 1\<rparr>) pat
      else Some self)"

declare weekdayLoop.simps [code]

text \<open>\<^verbatim>\<open>CronDate.prototype.increment\<close>: the date it leaves behind, or \<open>None\<close> when it
  does not return.\<close>

definition increment :: "CronDate \<Rightarrow> CronPattern \<Rightarrow> CronDate option" where
  "increment self pat =
     Option.bind (cascade (self\<lparr>seconds := seconds self + 1, milliseconds := 0\<rparr>) pat 0)
       (\<lambda>self'. weekdayLoop self' pat)"

subsection \<open>Cron\<close>

text \<open>A value that may be \<^verbatim>\<open>undefined\<close>.\<close>

datatype 'a orUndefined = Undefined | Defined 'a

text \<open>The value of \<^verbatim>\<open>startAt\<close> or \<^verbatim>\<open>stopAt\<close> in the options: a string, or a \<^verbatim>\<open>Date\<close>
  with its time value.\<close>

datatype dateval = Str string | DateObj "int option"

text \<open>\<^verbatim>\<open>maxRuns\<close>: a number or \<^verbatim>\<open>Infinity\<close>.\<close>

datatype runs = Runs int | Infinity

text \<open>The options object; \<open>None\<close> is a member that is \<^verbatim>\<open>undefined\<close>. A running timer
  is known by the delay it was set with.\<close>

record CronOptions =
  paused :: "bool option"
  kill :: "bool option"
  rest :: "int option"
  currentTimeout :: "int option option"
  previous :: "int option"
  startAt :: "dateval option"
  stopAt :: "dateval option"
  maxRuns :: "runs option"

definition emptyOptions :: CronOptions where
  "emptyOptions =
     \<lparr> paused = None, kill = None, rest = None, currentTimeout = None, previous = None,
       startAt = None, stopAt = None, maxRuns = None \<rparr>"

text \<open>What the host supplies: \<^verbatim>\<open>Date.parse\<close> and the clock \<^verbatim>\<open>new Date()\<close>.\<close>

record host =
  Date_parse :: "string \<Rightarrow> int option"
  now :: int

definition isTruthy :: "dateval option \<Rightarrow> bool" where
  "isTruthy v =
     (case v of None \<Rightarrow> False | Some (Str s) \<Rightarrow> s \<noteq> [] | Some (DateObj d) \<Rightarrow> True)"

text \<open>\<^verbatim>\<open>new Date(value)\<close> for a number.\<close>

definition newDateOfValue :: "int option \<Rightarrow> int option" where
  "newDateOfValue v = Option.bind v TimeClip"

text \<open>\<^verbatim>\<open>Cron.prototype.validateOpts\<close>. It writes into the object it was given.\<close>

definition validateOpts :: "host \<Rightarrow> CronOptions \<Rightarrow> error + CronOptions" where
  "validateOpts h opts =
     (case (if isTruthy (startAt opts) then
              (let d = (case the (startAt opts) of
                          Str s \<Rightarrow> newDateOfValue (map_option (\<lambda>t. t - 1) (Date_parse h s))
                        | DateObj t \<Rightarrow> newDateOfValue (map_option (\<lambda>t. t - 1) t))
               in if d = None then raise StartAtNotParsed
                  else Inr (opts\<lparr>startAt := Some (DateObj d)\<rparr>))
            else Inr opts) of
        Inl err \<Rightarrow> Inl err
      | Inr opts1 \<Rightarrow>
          if isTruthy (stopAt opts1) then
            (let d = (case the (stopAt opts1) of
                        Str s \<Rightarrow> newDateOfValue (Date_parse h s)
                      | DateObj t \<Rightarrow> t)
             in if d = None then raise StopAtNotParsed
                else Inr (opts1\<lparr>stopAt := Some (DateObj d)\<rparr>))
          else Inr opts1)"

record Cron =
  cronPattern :: CronPattern
  opts :: CronOptions

text \<open>\<^verbatim>\<open>this.opts.startAt && prev < this.opts.startAt\<close>, then \<^verbatim>\<open>prev = this.opts.startAt\<close>.
  An invalid date compares false. Every truthy \<^verbatim>\<open>startAt\<close> that \<^verbatim>\<open>validateOpts\<close> has
  stored is a valid \<^verbatim>\<open>Date\<close>, so no string is compared here.\<close>

definition clampToStartAt :: "int \<Rightarrow> dateval option \<Rightarrow> int" where
  "clampToStartAt prev v =
     (case v of
        Some (DateObj (Some s)) \<Rightarrow> if prev < s then s else prev
      | _ \<Rightarrow> prev)"

text \<open>\<^verbatim>\<open>this.opts.maxRuns <= 0\<close>, false for \<^verbatim>\<open>undefined\<close> and for \<^verbatim>\<open>Infinity\<close>.\<close>

definition noRunsLeft :: "runs option \<Rightarrow> bool" where
  "noRunsLeft r = (case r of Some (Runs n) \<Rightarrow> n \<le> 0 | _ \<Rightarrow> False)"

text \<open>\<^verbatim>\<open>stopAt && nextRun >= stopAt\<close> for
  \<^verbatim>\<open>stopAt = this.opts.stopAt || this.schedulerDefaults.stopAt\<close>, the default being
  \<^verbatim>\<open>Infinity\<close>, which no date reaches.\<close>

definition reachedStopAt :: "int option \<Rightarrow> dateval option \<Rightarrow> bool" where
  "reachedStopAt nextRun v =
     (case (nextRun, v) of
        (Some t, Some (DateObj (Some s))) \<Rightarrow> t \<ge> s
      | _ \<Rightarrow> False)"

text \<open>\<^verbatim>\<open>Cron.prototype._next\<close>; \<open>prev\<close> is a valid date or \<^verbatim>\<open>undefined\<close>. The result is
  \<open>None\<close> when \<^verbatim>\<open>increment\<close> does not return.\<close>

definition next_internal :: "host \<Rightarrow> Cron \<Rightarrow> int option \<Rightarrow> int option orUndefined option" where
  "next_internal h this prev =
     (let prev1 = (case prev of None \<Rightarrow> now h | Some t \<Rightarrow> t);
          prev2 = clampToStartAt prev1 (startAt (opts this))
      in if noRunsLeft (maxRuns (opts this)) \<or> kill (opts this) = Some True then Some Undefined
         else
           Option.bind (increment (newCronDate prev2) (cronPattern this))
             (\<lambda>cronDate.
                let nextRun = getDate cronDate
                in Some (if \<not> reachedStopAt nextRun (stopAt (opts this))
                         then Defined nextRun else Undefined)))"

text \<open>\<^verbatim>\<open>Cron.prototype.next\<close>.\<close>

definition Cron_next :: "host \<Rightarrow> Cron \<Rightarrow> int option \<Rightarrow> int option orUndefined option" where
  "Cron_next h this prev =
     map_option
       (\<lambda>dirtyDate. case dirtyDate of
                       Undefined \<Rightarrow> Undefined
                     | Defined d \<Rightarrow> Defined (setMilliseconds0 d))
       (next_internal h this prev)"

text \<open>\<^verbatim>\<open>Cron.prototype.previous\<close>.\<close>

definition Cron_previous :: "Cron \<Rightarrow> int option" where
  "Cron_previous this = previous (opts this)"

text \<open>\<^verbatim>\<open>Cron.prototype.msToNext\<close>: a number, \<^verbatim>\<open>NaN\<close> for an invalid next run, or
  \<^verbatim>\<open>undefined\<close>.\<close>

definition msToNext :: "host \<Rightarrow> Cron \<Rightarrow> int option \<Rightarrow> int option orUndefined option" where
  "msToNext h this prev =
     (let prev1 = (case prev of None \<Rightarrow> now h | Some t \<Rightarrow> t)
      in Option.bind (next_internal h this (Some prev1))
           (\<lambda>nxt. case nxt of
                     Undefined \<Rightarrow> Some Undefined
                   | Defined _ \<Rightarrow>
                       Option.bind (next_internal h this (Some prev1))
                         (\<lambda>again. Some (case again of
                                           Undefined \<Rightarrow> Defined None
                                         | Defined d \<Rightarrow> Defined (map_option (\<lambda>t. t - prev1) d)))))"

text \<open>Arguments that may be an options object, a function or \<^verbatim>\<open>undefined\<close>. A function
  is an object without any of the members of the options.\<close>

datatype 'f arg = NoArg | OptionsArg CronOptions | FunctionArg 'f

definition maxDelay :: int where
  "maxDelay = 2 ^ (32 - 1) - 1"

text \<open>A job: the options object that its three control functions share.\<close>

record CronJob =
  jobOpts :: CronOptions

text \<open>\<^verbatim>\<open>Cron.prototype.schedule\<close>, up to the arming of the timer; what the timer does
  when it fires is outside this model. It returns the scheduler with the options it has
  stored, and the job or \<^verbatim>\<open>undefined\<close>. No member \<^verbatim>\<open>maxDelay\<close> is set on a scheduler by
  the constructor, so \<^verbatim>\<open>_maxDelay\<close> is the constant.\<close>

definition schedule ::
    "host \<Rightarrow> Cron \<Rightarrow> 'f arg \<Rightarrow> 'f option \<Rightarrow> (error + Cron \<times> CronJob orUndefined) option" where
  "schedule h self options func =
     (case (if func = None then Some emptyOptions
            else (case options of
                    NoArg \<Rightarrow> None
                  | OptionsArg os \<Rightarrow> Some os
                  | FunctionArg f \<Rightarrow> Some emptyOptions)) of
        None \<Rightarrow> Some (raise TypeErrorUndefinedOptions)
      | Some opts0 \<Rightarrow>
         (let opts1 = opts0
                \<lparr> paused := Some (case paused opts0 of None \<Rightarrow> False | Some b \<Rightarrow> b),
                  kill := Some (kill opts0 = Some True),
                  rest := Some (case rest opts0 of None \<Rightarrow> 0 | Some r \<Rightarrow> r),
                  maxRuns := Some (case maxRuns opts0 of None \<Rightarrow> Infinity | Some r \<Rightarrow> r) \<rparr>
          in case validateOpts h opts1 of
               Inl err \<Rightarrow> Some (Inl err)
             | Inr opts2 \<Rightarrow>
                (let self1 = self\<lparr>opts := opts2\<rparr>
                 in Option.bind (msToNext h self1 (previous opts2))
                      (\<lambda>waitMs. case waitMs of
                         Undefined \<Rightarrow> Some (Inr (self1, Undefined))
                       | Defined w \<Rightarrow>
                          (let w1 = (case w of
                                       Some n \<Rightarrow> if n > maxDelay then Some maxDelay else Some n
                                     | None \<Rightarrow> None);
                               opts3 = opts2\<lparr>currentTimeout := Some w1\<rparr>
                           in Some (Inr (self1\<lparr>opts := opts3\<rparr>,
                                         Defined \<lparr> jobOpts = opts3 \<rparr>)))))))"

text \<open>What \<^verbatim>\<open>Cron(...)\<close> or \<^verbatim>\<open>new Cron(...)\<close> evaluates to: a scheduler or a job.\<close>

datatype CronOrJob = IsCron Cron | IsJob CronJob

text \<open>The statements of the function \<^verbatim>\<open>Cron\<close> after its first check, run on an object
  \<^verbatim>\<open>this\<close> whose members they overwrite: the object as they leave it, and the value
  they return. \<^verbatim>\<open>validateOpts\<close> writes into \<^verbatim>\<open>options\<close>, and it is this object that
  \<^verbatim>\<open>schedule\<close> is given; with no \<^verbatim>\<open>options\<close> the validated object is a fresh one and
  \<^verbatim>\<open>schedule\<close> is given \<^verbatim>\<open>undefined\<close>.\<close>

definition Cron_body ::
    "host \<Rightarrow> string \<Rightarrow> 'f arg \<Rightarrow> 'f option \<Rightarrow> (error + Cron \<times> CronOrJob orUndefined) option" where
  "Cron_body h pat options fn =
     (case newCronPattern pat of
        Inl err \<Rightarrow> Some (Inl err)
      | Inr p \<Rightarrow>
         (let fn1 = (case options of FunctionArg f \<Rightarrow> Some f | _ \<Rightarrow> fn);
              options1 = (case options of FunctionArg f \<Rightarrow> OptionsArg emptyOptions | _ \<Rightarrow> options)
          in case validateOpts h (case options1 of OptionsArg os \<Rightarrow> os | _ \<Rightarrow> emptyOptions) of
               Inl err \<Rightarrow> Some (Inl err)
             | Inr os \<Rightarrow>
                (let self = \<lparr> cronPattern = p, opts = os \<rparr>
                 in if fn1 = None then Some (Inr (self, Defined (IsCron self)))
                    else
                      Option.bind
                        (schedule h self (case options1 of OptionsArg _ \<Rightarrow> OptionsArg os | a \<Rightarrow> a) fn1)
                        (\<lambda>r. Some (case r of
                                     Inl err \<Rightarrow> Inl err
                                   | Inr (self1, Undefined) \<Rightarrow> Inr (self1, Undefined)
                                   | Inr (self1, Defined job) \<Rightarrow> Inr (self1, Defined (IsJob job)))))))"

text \<open>\<^verbatim>\<open>new Cron(pattern, options, fn)\<close>: the body runs on a fresh object; the value is the
  object that the body returns, and the fresh object when the body returns
  \<^verbatim>\<open>undefined\<close>.\<close>

definition new_Cron ::
    "host \<Rightarrow> string \<Rightarrow> 'f arg \<Rightarrow> 'f option \<Rightarrow> (error + CronOrJob) option" where
  "new_Cron h pat options fn =
     map_option
       (map_sum id (\<lambda>(self, r). case r of Undefined \<Rightarrow> IsCron self | Defined v \<Rightarrow> v))
       (Cron_body h pat options fn)"

text \<open>A call of the function \<^verbatim>\<open>Cron\<close>. \<open>thisIsCron\<close> is \<^verbatim>\<open>this instanceof Cron\<close>, false
  when \<^verbatim>\<open>Cron(...)\<close> is called as a plain function; the value is what the call
  returns.\<close>

definition Cron ::
    "bool \<Rightarrow> host \<Rightarrow> string \<Rightarrow> 'f arg \<Rightarrow> 'f option \<Rightarrow> (error + CronOrJob orUndefined) option" where
  "Cron thisIsCron h pat options fn =
     (if \<not> thisIsCron then map_option (map_sum id Defined) (new_Cron h pat options fn)
      else map_option (map_sum id snd) (Cron_body h pat options fn))"

subsection \<open>Notions for the termination of the cascade\<close>

text \<open>The rows of \<^verbatim>\<open>toDo\<close> by their number: the member that a row processes, the
  member that it increments when there is no match, and its offset. The member of a row
  is settled in a date when the date holds a match for it, so that \<^verbatim>\<open>findNext\<close> leaves
  it alone; an array has an element when some key from 0 up to its length is truthy.\<close>

definition tm :: "nat \<Rightarrow> member" where
  "tm k = fst (toDo ! k)"

definition tnext :: "nat \<Rightarrow> member" where
  "tnext k = fst (snd (toDo ! k))"

definition toff :: "nat \<Rightarrow> int" where
  "toff k = snd (snd (toDo ! k))"

definition settled :: "CronPattern \<Rightarrow> CronDate \<Rightarrow> nat \<Rightarrow> bool" where
  "settled p s k =
     (truthy (part p (tm k)) (Some (getMember s (tm k) + toff k))
      \<and> getMember s (tm k) + toff k < int (len (part p (tm k))))"

definition hasElement :: "jsarray \<Rightarrow> bool" where
  "hasElement arr = (\<exists>i. 0 \<le> i \<and> i < int (len arr) \<and> truthy arr (Some i))"

subsection \<open>Notions for the termination of the weekday loop\<close>

text \<open>A date whose members are in their ranges, up to one below, in a year from -255000
  to 255900.\<close>

definition inRange :: "CronDate \<Rightarrow> bool" where
  "inRange cd =
     (- 255000 \<le> years cd \<and> years cd \<le> 255900 \<and> - 1 \<le> months cd \<and> months cd \<le> 11
      \<and> - 1 \<le> days cd \<and> days cd \<le> 31 \<and> - 1 \<le> hours cd \<and> hours cd \<le> 23
      \<and> - 1 \<le> minutes cd \<and> minutes cd \<le> 59 \<and> - 1 \<le> seconds cd \<and> seconds cd \<le> 59
      \<and> milliseconds cd = 0)"

definition baseDay :: "CronDate \<Rightarrow> int" where
  "baseDay cd =
     Day (MakeDate
            (MakeDay (if 0 \<le> years cd \<and> years cd \<le> 99 then 1900 + years cd else years cd)
               (months cd) (days cd))
            (MakeTime (hours cd) (minutes cd) (seconds cd) (milliseconds cd)))"

text \<open>The keys of an array that no write of the compiler leaves: no key below \<^verbatim>\<open>-1\<close> is
  truthy. Two patterns have the same shape when their arrays have the same lengths and
  the second keeps that property of the first.\<close>

definition keysOK :: "jsarray \<Rightarrow> bool" where
  "keysOK arr = (\<forall>i. truthy arr (Some i) \<longrightarrow> - 1 \<le> i)"

definition sameShape :: "CronPattern \<Rightarrow> CronPattern \<Rightarrow> bool" where
  "sameShape this this' =
     ((\<forall>m. len (part this' m) = len (part this m))
      \<and> ((\<forall>m. keysOK (part this m)) \<longrightarrow> (\<forall>m. keysOK (part this' m))))"

section \<open>Properties of the pattern compiler\<close>

subsection \<open>Characters that survive the splitting\<close>

lemma mem_dropWhile_ws:
  "c \<in> set s \<Longrightarrow> \<not> isWhiteSpace c \<Longrightarrow> c \<in> set (dropWhile isWhiteSpace s)"
  by (induction s) auto

lemma mem_trim: "c \<in> set s \<Longrightarrow> \<not> isWhiteSpace c \<Longrightarrow> c \<in> set (trim s)"
  unfolding trim_def
  using mem_dropWhile_ws [of c "rev (dropWhile isWhiteSpace s)"] mem_dropWhile_ws [of c s]
  by simp

lemma mem_replace_ws: "c \<in> set s \<Longrightarrow> \<not> isWhiteSpace c \<Longrightarrow> c \<in> set (replace_ws s)"
proof (induction s rule: replace_ws.induct)
  case 1
  then show ?case by simp
next
  case (2 x xs)
  show ?case
  proof (cases "isWhiteSpace x")
    case True
    with 2 have "c \<in> set xs" by auto
    then have "c \<in> set (dropWhile isWhiteSpace xs)"
      using 2(4) mem_dropWhile_ws by blast
    with 2 True show ?thesis by simp
  next
    case False
    with 2 show ?thesis by auto
  qed
qed

lemma mem_split: "c \<in> set s \<Longrightarrow> c \<noteq> sep \<Longrightarrow> \<exists>p \<in> set (split sep s). c \<in> set p"
proof (induction s)
  case Nil
  then show ?case by simp
next
  case (Cons x xs)
  show ?case
  proof (cases "c = x")
    case True
    then show ?thesis using Cons.prems by (cases "split sep xs") auto
  next
    case False
    then have "c \<in> set xs" using Cons.prems by simp
    then obtain p where "p \<in> set (split sep xs)" "c \<in> set p"
      using Cons.IH Cons.prems by blast
    then show ?thesis by (cases "split sep xs") auto
  qed
qed

lemma mem_splitParts:
  assumes "c \<in> set s" "\<not> isWhiteSpace c"
  shows "\<exists>p \<in> set (splitParts s). c \<in> set p"
proof -
  have "c \<noteq> CHR '' ''" using assms(2) by (auto simp: isWhiteSpace_def)
  moreover have "c \<in> set (replace_ws (trim s))"
    using assms mem_trim mem_replace_ws by blast
  ultimately show ?thesis unfolding splitParts_def by (rule mem_split [rotated])
qed

lemma validateParts_illegal:
  "p \<in> set ps \<Longrightarrow> reValidCron_test (trim p) \<Longrightarrow> \<exists>err. validateParts i ps = Inl err"
  by (induction ps arbitrary: i) (auto simp: raise_def)

text \<open>A character that is neither white space nor one of \<^verbatim>\<open>/ * , -\<close> and the digits makes
  the pattern fail, either by the number of its parts or by the check of the characters.\<close>

lemma illegal_char_rejected:
  assumes "c \<in> set s" "\<not> isWhiteSpace c" "\<not> isLegal c"
  shows "\<exists>err. newCronPattern s = Inl err"
proof -
  obtain p where p: "p \<in> set (splitParts s)" "c \<in> set p"
    using mem_splitParts [OF assms(1,2)] by blast
  have "c \<in> set (trim p)" using p(2) assms(2) by (rule mem_trim)
  then have "reValidCron_test (trim p)"
    using assms(3) by (auto simp: reValidCron_test_def list_ex_iff)
  then obtain err where "validateParts 0 (splitParts s) = Inl err"
    using validateParts_illegal [OF p(1)] by blast
  then show ?thesis
    by (simp add: newCronPattern_def parse_def emptyPattern_def raise_def Let_def)
qed

lemma Cron_body_compile_error:
  "newCronPattern s = Inl err \<Longrightarrow> Cron_body h s options fn = Some (Inl err)"
  by (simp add: Cron_body_def)

lemma new_Cron_compile_error:
  "newCronPattern s = Inl err \<Longrightarrow> new_Cron h s options fn = Some (Inl err)"
  by (simp add: new_Cron_def Cron_body_compile_error)

subsection \<open>Day of week together with day of month or month\<close>

text \<open>
  Claim C2 says that in a legacy mode, which is the default, an expression that
  constrains the day of week together with the day of month or the month compiles and
  matches when either constraint holds, and that only a strict mode rejects it. The
  code has no such mode: \<^verbatim>\<open>parse\<close> raises for every such expression, whatever the
  options. The expression \<^verbatim>\<open>0 0 0 1 11 4\<close> is rejected with default options.
\<close>

theorem C2_default_options_reject:
  "newCronPattern ''0 0 0 1 11 4'' = Inl CombineMonthDateWithDayOfWeek
   \<and> (\<forall>h. new_Cron h ''0 0 0 1 11 4'' NoArg (None :: unit option)
            = Some (Inl CombineMonthDateWithDayOfWeek))"
proof -
  have "newCronPattern ''0 0 0 1 11 4'' = Inl CombineMonthDateWithDayOfWeek"
    by code_simp
  then show ?thesis by (simp add: new_Cron_compile_error)
qed

text \<open>
  Claim C2, as amended: an expression of six parts whose day-of-week part is not \<^verbatim>\<open>*\<close>
  and whose day-of-month part or month part is not \<^verbatim>\<open>*\<close> is a compile error, and the
  constructor raises it for every host, every options argument and every callback.
\<close>

theorem C2_combination_always_rejected:
  assumes "splitParts s = [fsec, fmin, fhr, fdom, fmon, fdow]"
    and "fdow \<noteq> ''*''"
    and "fdom \<noteq> ''*'' \<or> fmon \<noteq> ''*''"
  shows "\<exists>err. newCronPattern s = Inl err
           \<and> (\<forall>h options fn. new_Cron h s options (fn :: 'f option) = Some (Inl err))"
proof -
  have "\<exists>err. newCronPattern s = Inl err"
    using assms
    by (cases "validateParts 0 [fsec, fmin, fhr, fdom, fmon, fdow]")
       (auto simp: newCronPattern_def parse_def emptyPattern_def raise_def Let_def)
  then show ?thesis using new_Cron_compile_error by blast
qed

theorem C2_combination_always_rejected_witness:
  "splitParts ''59 59 23 2 * 6'' = [''59'', ''59'', ''23'', ''2'', ''*'', ''6'']
   \<and> (\<exists>err. newCronPattern ''59 59 23 2 * 6'' = Inl err
        \<and> new_Cron \<lparr>Date_parse = (\<lambda>s. None), now = 0\<rparr> ''59 59 23 2 * 6'' NoArg (None :: unit option)
            = Some (Inl err))"
proof -
  have parts: "splitParts ''59 59 23 2 * 6'' = [''59'', ''59'', ''23'', ''2'', ''*'', ''6'']"
    by code_simp
  obtain err where
    "newCronPattern ''59 59 23 2 * 6'' = Inl err
     \<and> (\<forall>h options fn. new_Cron h ''59 59 23 2 * 6'' options (fn :: unit option) = Some (Inl err))"
    using C2_combination_always_rejected [OF parts] by auto
  then show ?thesis using parts by blast
qed

subsection \<open>Aliases\<close>

text \<open>
  Claim C6 says that each of \<^verbatim>\<open>@yearly\<close>, \<^verbatim>\<open>@annually\<close>, \<^verbatim>\<open>@monthly\<close>, \<^verbatim>\<open>@weekly\<close>,
  \<^verbatim>\<open>@daily\<close> and \<^verbatim>\<open>@hourly\<close> compiles like its expansion. The code expands no alias:
  \<^verbatim>\<open>@yearly\<close> is one part where six are required.
\<close>

theorem C6_yearly_is_compile_error:
  "newCronPattern ''@yearly'' = Inl (InvalidConfigurationFormat ''@yearly'')"
  by code_simp

text \<open>
  Claim C6, as amended: every expression that contains the character \<^verbatim>\<open>@\<close>, the six
  alias names among them, is a compile error, which the constructor raises.
\<close>

theorem C6_at_sign_always_rejected:
  assumes "CHR ''@'' \<in> set s"
  shows "\<exists>err. newCronPattern s = Inl err
           \<and> (\<forall>h options fn. new_Cron h s options (fn :: 'f option) = Some (Inl err))"
proof -
  have "\<exists>err. newCronPattern s = Inl err"
    using assms by (rule illegal_char_rejected) (simp_all add: isWhiteSpace_def isLegal_def isDigit_def)
  then show ?thesis using new_Cron_compile_error by blast
qed

theorem C6_at_sign_always_rejected_witness:
  "CHR ''@'' \<in> set ''@weekly''
   \<and> (\<exists>err. newCronPattern ''@weekly'' = Inl err
        \<and> new_Cron \<lparr>Date_parse = (\<lambda>s. None), now = 0\<rparr> ''@weekly'' NoArg (None :: unit option)
            = Some (Inl err))"
proof -
  have at: "CHR ''@'' \<in> set ''@weekly''" by simp
  obtain err where
    "newCronPattern ''@weekly'' = Inl err
     \<and> (\<forall>h options fn. new_Cron h ''@weekly'' options (fn :: unit option) = Some (Inl err))"
    using C6_at_sign_always_rejected [OF at] by auto
  then show ?thesis using at by blast
qed

subsection \<open>The atom L\<close>

text \<open>
  Claim C7 says that the day-of-month part accepts the atom \<^verbatim>\<open>L\<close> and that
  \<^verbatim>\<open>0 0 0 L * *\<close> yields the last days of the months. The code accepts no letter:
  \<^verbatim>\<open>0 0 0 L * *\<close> fails the check of the characters in its fourth part.
\<close>

theorem C7_last_day_is_compile_error:
  "newCronPattern ''0 0 0 L * *'' = Inl (IllegalCharacters 4 ''L'')"
  by code_simp

text \<open>
  Claim C7, as amended: no part accepts the atom \<^verbatim>\<open>L\<close>; every expression that contains
  the letter \<^verbatim>\<open>L\<close> is a compile error, which the constructor raises, so that no instant is
  computed from it.
\<close>

theorem C7_letter_L_always_rejected:
  assumes "CHR ''L'' \<in> set s"
  shows "\<exists>err. newCronPattern s = Inl err
           \<and> (\<forall>h options fn. new_Cron h s options (fn :: 'f option) = Some (Inl err))"
proof -
  have "\<exists>err. newCronPattern s = Inl err"
    using assms by (rule illegal_char_rejected) (simp_all add: isWhiteSpace_def isLegal_def isDigit_def)
  then show ?thesis using new_Cron_compile_error by blast
qed

theorem C7_letter_L_always_rejected_witness:
  "CHR ''L'' \<in> set ''0 0 0 15,L * *''
   \<and> (\<exists>err. newCronPattern ''0 0 0 15,L * *'' = Inl err
        \<and> new_Cron \<lparr>Date_parse = (\<lambda>s. None), now = 0\<rparr> ''0 0 0 15,L * *'' NoArg (None :: unit option)
            = Some (Inl err))"
proof -
  have l: "CHR ''L'' \<in> set ''0 0 0 15,L * *''" by simp
  obtain err where
    "newCronPattern ''0 0 0 15,L * *'' = Inl err
     \<and> (\<forall>h options fn. new_Cron h ''0 0 0 15,L * *'' options (fn :: unit option) = Some (Inl err))"
    using C7_letter_L_always_rejected [OF l] by auto
  then show ?thesis using l by blast
qed

subsection \<open>Acceptance sets that are empty\<close>

lemma accepted_eq_list: "accepted p m = set (acceptedList p m)"
proof -
  have "v \<in> accepted p m \<longleftrightarrow> v \<in> set (acceptedList p m)" for v
  proof
    assume "v \<in> accepted p m"
    then have "v + indexOffset m
        \<in> set (filter (\<lambda>i. truthy (part p m) (Some i)) [0..int (len (part p m)) - 1])"
      by (simp add: accepted_def)
    then show "v \<in> set (acceptedList p m)"
      unfolding acceptedList_def set_map by (rule rev_image_eqI) simp
  next
    assume "v \<in> set (acceptedList p m)"
    then show "v \<in> accepted p m" by (auto simp: accepted_def acceptedList_def)
  qed
  then show ?thesis by blast
qed

text \<open>
  Claim C5 says that every acceptance set of a compiled expression is non-empty. The
  expression \<^verbatim>\<open>* * * 1-1 * *\<close> compiles, and its set of days of the month is empty: the
  range branch of \<^verbatim>\<open>partToArray\<close> adds the index offset to the bounds and again to the
  index that it writes, so that the one write goes to the key \<^verbatim>\<open>-1\<close>.
\<close>

theorem C5_range_of_first_day_is_empty:
  "\<exists>p. newCronPattern ''* * * 1-1 * *'' = Inr p \<and> accepted p Days = {}
       \<and> truthy (part p Days) (Some (-1))"
proof -
  have "case newCronPattern ''* * * 1-1 * *'' of
          Inl e \<Rightarrow> False
        | Inr p \<Rightarrow> acceptedList p Days = [] \<and> truthy (part p Days) (Some (-1))"
    by code_simp
  then show ?thesis by (auto simp: accepted_eq_list split: sum.splits)
qed

subsection \<open>Writes into the arrays, and ranges\<close>


lemma len_fill [simp]: "len (fill n) = n"
  by (simp add: len_def fill_def)

lemma truthy_fill [simp]: "truthy (fill n) k = False"
  by (cases k) (simp_all add: truthy_def fill_def len_def)

lemma len_put1:
  "len (put1 arr k) =
     (case k of Some i \<Rightarrow> if int (len arr) \<le> i then nat i + 1 else len arr | None \<Rightarrow> len arr)"
  by (cases k) (auto simp: put1_def len_def)

lemma len_put1_inside:
  "(case k of Some i \<Rightarrow> i < int (len arr) | None \<Rightarrow> True) \<Longrightarrow> len (put1 arr k) = len arr"
  by (cases k) (auto simp: len_put1)

lemma truthy_put1: "truthy (put1 arr k) k' = (k' = k \<or> truthy arr k')"
proof (cases k)
  case None
  then show ?thesis by (cases k') (auto simp: put1_def truthy_def len_def)
next
  case (Some i)
  show ?thesis
  proof (cases k')
    case None
    then show ?thesis using Some by (auto simp: put1_def truthy_def len_def)
  next
    case (Some j)
    consider "i < 0" | "0 \<le> i" "i < int (len arr)" | "int (len arr) \<le> i" by linarith
    then show ?thesis
    proof cases
      case 1
      then show ?thesis using \<open>k = Some i\<close> Some by (auto simp: put1_def truthy_def len_def)
    next
      case 2
      then show ?thesis using \<open>k = Some i\<close> Some
        by (auto simp: put1_def truthy_def len_def nth_list_update)
    next
      case 3
      then show ?thesis using \<open>k = Some i\<close> Some
        by (auto simp: put1_def truthy_def len_def nth_append)
    qed
  qed
qed

lemma truthy_foldl_put1:
  "truthy (foldl (\<lambda>a i. put1 a (f i)) arr xs) k = (k \<in> f ` set xs \<or> truthy arr k)"
  by (induction xs arbitrary: arr) (auto simp: truthy_put1)

lemma len_foldl_put1:
  "len arr = n \<Longrightarrow> \<forall>x \<in> set xs. (case f x of Some i \<Rightarrow> i < int n | None \<Rightarrow> True)
   \<Longrightarrow> len (foldl (\<lambda>a i. put1 a (f i)) arr xs) = n"
proof (induction xs arbitrary: arr)
  case Nil
  then show ?case by simp
next
  case (Cons x xs)
  have "len (put1 arr (f x)) = n"
    using Cons.prems by (auto simp: len_put1 split: option.splits)
  then show ?case using Cons.IH [of "put1 arr (f x)"] Cons.prems by simp
qed

lemma split_append_sep: "sep \<notin> set a \<Longrightarrow> split sep (a @ sep # tl0) = a # split sep tl0"
  by (induction a) auto

lemma parseDigits_nonneg: "parseDigits s = Some n \<Longrightarrow> 0 \<le> n"
proof -
  have "0 \<le> acc \<Longrightarrow> list_all isDigit ds \<Longrightarrow> 0 \<le> foldl (\<lambda>a c. 10 * a + digitValue c) acc ds" for acc ds
    by (induction ds arbitrary: acc) (auto simp: isDigit_def digitValue_def)
  moreover have "list_all isDigit (takeWhile isDigit s)"
    by (simp add: list_all_iff) (meson set_takeWhileD)
  ultimately show "parseDigits s = Some n \<Longrightarrow> 0 \<le> n"
    by (auto simp: parseDigits_def Let_def split: if_splits)
qed

lemma mark_range_truthy:
  "truthy (mark_range arr lower upper off) k = ((\<exists>i. lower \<le> i \<and> i \<le> upper \<and> k = Some (i + off)) \<or> truthy arr k)"
  unfolding mark_range_def truthy_foldl_put1 by auto

lemma mark_range_len:
  "upper + off < int (len arr) \<Longrightarrow> len (mark_range arr lower upper off) = len arr"
  unfolding mark_range_def by (rule len_foldl_put1) auto

lemma wildcard_truthy:
  "truthy (foldl (\<lambda>a i. put1 a (Some (int i))) arr [0..<n]) k = ((\<exists>i<n. k = Some (int i)) \<or> truthy arr k)"
  unfolding truthy_foldl_put1 by auto

lemma wildcard_len:
  "len (foldl (\<lambda>a i. put1 a (Some (int i))) arr [0..<len arr]) = len arr"
  by (rule len_foldl_put1) auto

text \<open>A range atom of two digit strings.\<close>

lemma rangeToArray_digits:
  assumes "list_all isDigit a" "list_all isDigit b"
    and "parseInt a = Some n" "parseInt b = Some m"
    and "n \<le> m" "m + off < int (len arr)" "0 \<le> n + off"
  shows "rangeToArray arr (a @ ''-'' @ b) off = Inr (mark_range arr (n + off) (m + off) off)"
proof -
  have na: "CHR ''-'' \<notin> set a" and nb: "CHR ''-'' \<notin> set b"
    using assms(1,2) by (auto simp: list_all_iff isDigit_def)
  have sp: "split CHR ''-'' (a @ CHR ''-'' # b) = [a, b]"
    using split_append_sep [OF na, of b] split_single [OF nb] by simp
  show ?thesis
    using assms(3-) by (simp add: rangeToArray_def sp plus_offset_def Let_def raise_def)
qed


lemma part_set_part:
  "part (set_part this t arr) t' = (if t' = t \<and> t \<noteq> Years then arr else part this t')"
  by (cases t; cases t') (simp_all add: part_def set_part_def)

lemma part_emptyPattern:
  "part (emptyPattern s) t =
     fill (case t of Seconds \<Rightarrow> 60 | Minutes \<Rightarrow> 60 | Hours \<Rightarrow> 24 | Days \<Rightarrow> 31
           | Months \<Rightarrow> 12 | DaysOfWeek \<Rightarrow> 8 | Years \<Rightarrow> 0)"
  by (cases t) (simp_all add: part_def emptyPattern_def)

lemma pattern_set_part [simp]: "pattern (set_part this t arr) = pattern this"
  by (cases t) (simp_all add: set_part_def)

lemma partToArray_star:
  "partToArray this type ''*'' off =
     Inr (set_part this type
            (foldl (\<lambda>a i. put1 a (Some (int i))) (part this type) [0..<len (part this type)]))"
  by (subst partToArray.simps(1)) simp

lemma partToArray_range:
  assumes "list_all isDigit a" "list_all isDigit b"
    and "parseInt a = Some n" "parseInt b = Some m"
    and "n \<le> m" "m + off < int (len (part this type))" "0 \<le> n + off"
  shows "partToArray this type (a @ ''-'' @ b) off
           = Inr (set_part this type (mark_range (part this type) (n + off) (m + off) off))"
proof -
  let ?conf = "a @ ''-'' @ b"
  have nc: "CHR '','' \<notin> set ?conf"
    using assms(1,2) by (auto simp: list_all_iff isDigit_def)
  have "CHR ''-'' \<in> set ?conf" by simp
  moreover have "CHR ''-'' \<notin> set ''*''" by simp
  ultimately have ns: "?conf \<noteq> ''*''" by metis
  have sp: "split CHR '','' ?conf = [?conf]" using nc by (rule split_single)
  have ct: "contains ?conf CHR ''-''" by (simp add: contains_def)
  have rg: "rangeToArray (part this type) ?conf off
              = Inr (mark_range (part this type) (n + off) (m + off) off)"
    using assms by (rule rangeToArray_digits)
  show ?thesis
    by (subst partToArray.simps(1)) (simp only: ns sp ct rg if_False if_True list.size map_sum.simps id_apply, simp)
qed


lemma set_trim: "set (trim s) \<subseteq> set s"
  unfolding trim_def by (metis set_dropWhileD set_rev subsetI)

lemma legal_passes: "list_all isLegal p \<Longrightarrow> \<not> reValidCron_test (trim p)"
  using set_trim [of p] by (auto simp: reValidCron_test_def list_ex_iff list_all_iff)

lemma star_passes: "\<not> reValidCron_test (trim ''*'')"
  by (rule legal_passes) (simp add: isLegal_def)

lemma range_passes:
  "list_all isDigit a \<Longrightarrow> list_all isDigit b \<Longrightarrow> \<not> reValidCron_test (trim (a @ CHR ''-'' # b))"
  by (rule legal_passes) (auto simp: isLegal_def list_all_iff)

lemma range_not_star: "a @ CHR ''-'' # b \<noteq> ''*''"
proof
  assume "a @ CHR ''-'' # b = ''*''"
  then have "set (a @ CHR ''-'' # b) = set ''*''" by simp
  then show False by auto
qed

lemma partToArray_range':
  assumes "list_all isDigit a" "list_all isDigit b"
    and "parseInt a = Some n" "parseInt b = Some m"
    and "n \<le> m" "m + off < int (len (part this type))" "0 \<le> n + off"
  shows "partToArray this type (a @ CHR ''-'' # b) off
           = Inr (set_part this type (mark_range (part this type) (n + off) (m + off) off))"
  using partToArray_range [OF assms] by simp

lemma pattern_emptyPattern [simp]: "pattern (emptyPattern s) = s"
  by (simp add: emptyPattern_def)


text \<open>
  Claim C3 says that the range atom \<^verbatim>\<open>N-M\<close> gives, for every part, exactly the values
  \<open>N\<close> to \<open>M\<close>. The day-of-week range \<^verbatim>\<open>5-7\<close> gives 0 as well: \<^verbatim>\<open>parse\<close> sets the
  element 0 whenever the element 7 is set, both being Sunday.
\<close>

theorem C3_weekday_range_to_7_accepts_0:
  "\<exists>p. newCronPattern ''* * * * * 5-7'' = Inr p \<and> accepted p DaysOfWeek = {0, 5, 6, 7}"
proof -
  have "case newCronPattern ''* * * * * 5-7'' of
          Inl e \<Rightarrow> False | Inr p \<Rightarrow> acceptedList p DaysOfWeek = [0, 5, 6, 7]"
    by code_simp
  then show ?thesis by (auto simp: accepted_eq_list split: sum.splits)
qed

text \<open>
  Claim C3, as amended: for the seconds, the minutes and the hours, an expression whose
  part is the one range atom \<^verbatim>\<open>N-M\<close>, with \<open>0 \<le> N \<le> M\<close> inside the part's array and
  the other parts \<^verbatim>\<open>*\<close>, compiles, and the part accepts exactly the values \<open>N\<close> to \<open>M\<close>.
  For the day of week it accepts the values \<open>N\<close> to \<open>M\<close>, and the value 0 as well when
  \<open>M\<close> is 7. The atoms are strings of digits \<open>a\<close> and \<open>b\<close> that \<^verbatim>\<open>parseInt\<close> reads as
  \<open>N\<close> and \<open>M\<close>.
\<close>

theorem C3_range_accepts_bounds_inclusive:
  assumes "type \<in> {Seconds, Minutes, Hours, DaysOfWeek}"
    and "list_all isDigit a" "list_all isDigit b"
    and "parseInt a = Some n" "parseInt b = Some m"
    and "0 \<le> n" "n \<le> m" "m < int (len (part (emptyPattern s) type))"
    and "splitParts s = onePart type (a @ ''-'' @ b)"
  shows "\<exists>p. newCronPattern s = Inr p
           \<and> accepted p type = {n..m} \<union> (if type = DaysOfWeek \<and> m = 7 then {0} else {})"
proof -
  consider "type = Seconds" | "type = Minutes" | "type = Hours" | "type = DaysOfWeek"
    using assms(1) by blast
  then show ?thesis
  proof cases
    case 1
    have sp: "splitParts s = [a @ CHR ''-'' # b, ''*'', ''*'', ''*'', ''*'', ''*'']"
      using assms(9) 1 by (simp add: onePart_def partIndex_def numeral_eq_Suc)
    show ?thesis
      using assms(2-8) 1
      apply (simp add: newCronPattern_def parse_def Let_def sp star_passes range_passes
          range_not_star partToArray_star partToArray_range' part_set_part part_emptyPattern
          wildcard_len wildcard_truthy mark_range_len)
      apply (auto simp: accepted_def indexOffset_def part_set_part part_emptyPattern wildcard_len
          wildcard_truthy mark_range_len mark_range_truthy)
      done
  next
    case 2
    have sp: "splitParts s = [''*'', a @ CHR ''-'' # b, ''*'', ''*'', ''*'', ''*'']"
      using assms(9) 2 by (simp add: onePart_def partIndex_def numeral_eq_Suc)
    show ?thesis
      using assms(2-8) 2
      apply (simp add: newCronPattern_def parse_def Let_def sp star_passes range_passes
          range_not_star partToArray_star partToArray_range' part_set_part part_emptyPattern
          wildcard_len wildcard_truthy mark_range_len)
      apply (auto simp: accepted_def indexOffset_def part_set_part part_emptyPattern wildcard_len
          wildcard_truthy mark_range_len mark_range_truthy)
      done
  next
    case 3
    have sp: "splitParts s = [''*'', ''*'', a @ CHR ''-'' # b, ''*'', ''*'', ''*'']"
      using assms(9) 3 by (simp add: onePart_def partIndex_def numeral_eq_Suc)
    show ?thesis
      using assms(2-8) 3
      apply (simp add: newCronPattern_def parse_def Let_def sp star_passes range_passes
          range_not_star partToArray_star partToArray_range' part_set_part part_emptyPattern
          wildcard_len wildcard_truthy mark_range_len)
      apply (auto simp: accepted_def indexOffset_def part_set_part part_emptyPattern wildcard_len
          wildcard_truthy mark_range_len mark_range_truthy)
      done
  next
    case 4
    have sp: "splitParts s = [''*'', ''*'', ''*'', ''*'', ''*'', a @ CHR ''-'' # b]"
      using assms(9) 4 by (simp add: onePart_def partIndex_def numeral_eq_Suc)
    show ?thesis
      using assms(2-8) 4
      apply (simp add: newCronPattern_def parse_def Let_def sp star_passes range_passes
          range_not_star partToArray_star partToArray_range' part_set_part part_emptyPattern
          wildcard_len wildcard_truthy mark_range_len mark_range_truthy)
      apply (auto simp: accepted_def indexOffset_def part_set_part part_emptyPattern wildcard_len
          wildcard_truthy mark_range_len mark_range_truthy truthy_put1 len_put1)
      done
  qed
qed

theorem C3_range_accepts_bounds_inclusive_witness:
  "(\<exists>p. newCronPattern ''10-20 * * * * *'' = Inr p \<and> accepted p Seconds = {10..20})
   \<and> (\<exists>p. newCronPattern ''* * * * * 5-7'' = Inr p \<and> accepted p DaysOfWeek = {5..7} \<union> {0})"
proof -
  have d: "list_all isDigit ''10''" "list_all isDigit ''20''" "list_all isDigit ''5''"
    "list_all isDigit ''7''"
    by code_simp+
  have p: "parseInt ''10'' = Some 10" "parseInt ''20'' = Some 20" "parseInt ''5'' = Some 5"
    "parseInt ''7'' = Some 7"
    by code_simp+
  have l: "(20::int) < int (len (part (emptyPattern ''10-20 * * * * *'') Seconds))"
    "(7::int) < int (len (part (emptyPattern ''* * * * * 5-7'') DaysOfWeek))"
    by code_simp+
  have s1: "splitParts ''10-20 * * * * *'' = onePart Seconds (''10'' @ ''-'' @ ''20'')"
    by code_simp
  have s2: "splitParts ''* * * * * 5-7'' = onePart DaysOfWeek (''5'' @ ''-'' @ ''7'')"
    by code_simp
  have "\<exists>p. newCronPattern ''10-20 * * * * *'' = Inr p \<and> accepted p Seconds = {10..20}"
    using C3_range_accepts_bounds_inclusive [OF _ d(1,2) p(1,2) _ _ l(1) s1] by simp
  moreover have "\<exists>p. newCronPattern ''* * * * * 5-7'' = Inr p \<and> accepted p DaysOfWeek = {5..7} \<union> {0}"
    using C3_range_accepts_bounds_inclusive [OF _ d(3,4) p(3,4) _ _ l(2) s2] by simp
  ultimately show ?thesis by blast
qed

section \<open>Properties of the constructor\<close>

text \<open>
  Claim C10: calling \<^verbatim>\<open>Cron\<close> as a plain function, without \<^verbatim>\<open>new\<close>, returns what
  \<^verbatim>\<open>new Cron\<close> evaluates to on the same arguments: the same scheduler with the same
  compiled pattern and options, the same job, or the same error.
\<close>

theorem C10_plain_call_is_new:
  "Cron False h pat options fn = map_option (map_sum id Defined) (new_Cron h pat options fn)"
  by (simp add: Cron_def)

section \<open>Properties of the next run\<close>

subsection \<open>The option startAt\<close>

lemma validateOpts_startAt:
  assumes "validateOpts h os = Inr os'"
    and "startAt os = Some (DateObj (Some s))
         \<or> (\<exists>str. str \<noteq> [] \<and> startAt os = Some (Str str) \<and> Date_parse h str = Some s)"
  shows "startAt os' = Some (DateObj (Some (s - 1)))"
proof -
  have t: "isTruthy (startAt os)" using assms(2) by (auto simp: isTruthy_def)
  have d: "(case the (startAt os) of
              Str s \<Rightarrow> newDateOfValue (map_option (\<lambda>t. t - 1) (Date_parse h s))
            | DateObj t \<Rightarrow> newDateOfValue (map_option (\<lambda>t. t - 1) t)) = TimeClip (s - 1)"
    using assms(2) by (auto simp: newDateOfValue_def)
  show ?thesis
  proof (cases "TimeClip (s - 1)")
    case None
    then show ?thesis using assms(1) t d by (simp add: validateOpts_def raise_def)
  next
    case (Some u)
    then have u: "u = s - 1" by (simp add: TimeClip_def split: if_splits)
    let ?o1 = "os\<lparr>startAt := Some (DateObj (Some (s - 1)))\<rparr>"
    have "startAt os' = startAt ?o1"
      using assms(1) t d Some u
      by (auto simp add: validateOpts_def raise_def Let_def split: if_splits)
    then show ?thesis by simp
  qed
qed

lemma next_internal_clamped:
  assumes "startAt (opts c) = Some (DateObj (Some s1))" and "from \<le> s1"
  shows "next_internal h c (Some from) = next_internal h c (Some s1)"
  using assms by (simp add: next_internal_def clampToStartAt_def)

lemma new_Cron_scheduler:
  assumes "new_Cron h pat (OptionsArg os) None = Some (Inr (IsCron c))"
  shows "\<exists>p os'. newCronPattern pat = Inr p \<and> validateOpts h os = Inr os'
           \<and> c = \<lparr> cronPattern = p, opts = os' \<rparr>"
proof (cases "newCronPattern pat")
  case (Inl e)
  then show ?thesis using assms by (simp add: new_Cron_def Cron_body_def)
next
  case (Inr p)
  show ?thesis
  proof (cases "validateOpts h os")
    case (Inl e)
    then show ?thesis using assms Inr by (simp add: new_Cron_def Cron_body_def)
  next
    case v: (Inr os')
    have "new_Cron h pat (OptionsArg os) None = Some (Inr (IsCron \<lparr> cronPattern = p, opts = os' \<rparr>))"
      using Inr v by (simp add: new_Cron_def Cron_body_def Let_def)
    with assms have "Some (Inr (IsCron c) :: error + CronOrJob)
        = Some (Inr (IsCron \<lparr> cronPattern = p, opts = os' \<rparr>))"
      by (rule trans [OF sym])
    then have "c = \<lparr> cronPattern = p, opts = os' \<rparr>"
      by (simp only: option.inject sum.inject CronOrJob.inject)
    then show ?thesis using Inr v by blast
  qed
qed

lemma scheduler_caseE:
  assumes "case r of Some (Inr (IsCron c)) \<Rightarrow> P c | _ \<Rightarrow> False"
  obtains c where "r = Some (Inr (IsCron c))" and "P c"
proof (cases r)
  case None
  then show ?thesis using assms by simp
next
  case (Some x)
  show ?thesis
  proof (cases x)
    case (Inl e)
    then show ?thesis using assms Some by simp
  next
    case (Inr y)
    show ?thesis
    proof (cases y)
      case (IsCron c)
      then show ?thesis using assms Some Inr that by simp
    next
      case (IsJob j)
      then show ?thesis using assms Some Inr by simp
    qed
  qed
qed

text \<open>
  A scheduler that is constructed without a callback runs \<^verbatim>\<open>validateOpts\<close> once. When its
  option \<^verbatim>\<open>startAt\<close> is set, as a date or as a string that the host parses, to the instant
  \<open>s\<close>, it stores the instant \<open>s - 1\<close>, and \<^verbatim>\<open>next\<close> of any instant earlier than \<open>s\<close> is
  \<^verbatim>\<open>next\<close> of the stored instant.
\<close>

lemma startAt_stored_without_callback:
  assumes "new_Cron h pat (OptionsArg os) None = Some (Inr (IsCron c))"
    and "startAt os = Some (DateObj (Some s))
         \<or> (\<exists>str. str \<noteq> [] \<and> startAt os = Some (Str str) \<and> Date_parse h str = Some s)"
  shows "startAt (opts c) = Some (DateObj (Some (s - 1)))
         \<and> (\<forall>from. from < s \<longrightarrow> Cron_next h c (Some from) = Cron_next h c (Some (s - 1)))"
proof -
  from new_Cron_scheduler [OF assms(1)] obtain p os' where c: "c = \<lparr> cronPattern = p, opts = os' \<rparr>"
    and v: "validateOpts h os = Inr os'"
    by blast
  have st: "startAt (opts c) = Some (DateObj (Some (s - 1)))"
    using validateOpts_startAt [OF v assms(2)] c by simp
  have "Cron_next h c (Some from) = Cron_next h c (Some (s - 1))" if "from < s" for "from"
    using next_internal_clamped [OF st, of "from" h] that by (simp add: Cron_next_def)
  with st show ?thesis by blast
qed

text \<open>On that path an instant equal to \<^verbatim>\<open>startAt\<close> is emitted.\<close>

lemma startAt_emitted_without_callback:
  "\<exists>c. new_Cron \<lparr>Date_parse = (\<lambda>s. None), now = 0\<rparr> ''* * * * * *''
           (OptionsArg (emptyOptions\<lparr>startAt := Some (DateObj (Some 1640995200000))\<rparr>))
           (None :: unit option)
         = Some (Inr (IsCron c))
       \<and> startAt (opts c) = Some (DateObj (Some 1640995199999))
       \<and> Cron_next \<lparr>Date_parse = (\<lambda>s. None), now = 0\<rparr> c (Some 1640000000000)
           = Cron_next \<lparr>Date_parse = (\<lambda>s. None), now = 0\<rparr> c (Some 1640995199999)
       \<and> Cron_next \<lparr>Date_parse = (\<lambda>s. None), now = 0\<rparr> c (Some 1640000000000)
           = Some (Defined (Some 1640995200000))"
proof -
  let ?h = "\<lparr>Date_parse = (\<lambda>s. None), now = 0\<rparr>"
  let ?os = "emptyOptions\<lparr>startAt := Some (DateObj (Some 1640995200000))\<rparr>"
  have "case new_Cron ?h ''* * * * * *'' (OptionsArg ?os) (None :: unit option) of
          Some (Inr (IsCron c)) \<Rightarrow>
            Cron_next ?h c (Some 1640000000000) = Some (Defined (Some 1640995200000))
        | _ \<Rightarrow> False"
    by code_simp
  then obtain c where
    c: "new_Cron ?h ''* * * * * *'' (OptionsArg ?os) (None :: unit option) = Some (Inr (IsCron c))"
    and n: "Cron_next ?h c (Some 1640000000000) = Some (Defined (Some 1640995200000))"
    by (rule scheduler_caseE)
  have s: "startAt ?os = Some (DateObj (Some 1640995200000))
           \<or> (\<exists>str. str \<noteq> [] \<and> startAt ?os = Some (Str str)
                \<and> Date_parse ?h str = Some 1640995200000)"
    by simp
  have a: "startAt (opts c) = Some (DateObj (Some (1640995200000 - 1)))"
    and b: "\<forall>from. from < 1640995200000
              \<longrightarrow> Cron_next ?h c (Some from) = Cron_next ?h c (Some (1640995200000 - 1))"
    using startAt_stored_without_callback [OF c s] by blast+
  have "(1640000000000 :: int) < 1640995200000" by simp
  then have b': "Cron_next ?h c (Some 1640000000000) = Cron_next ?h c (Some (1640995200000 - 1))"
    by (rule b [rule_format])
  have a': "startAt (opts c) = Some (DateObj (Some 1640995199999))" using a by simp
  have b'': "Cron_next ?h c (Some 1640000000000) = Cron_next ?h c (Some 1640995199999)"
    using b' by simp
  from c a' b'' n show ?thesis by blast
qed

lemma job_caseE:
  assumes "case r of Some (Inr (IsJob j)) \<Rightarrow> P j | _ \<Rightarrow> False"
  obtains j where "r = Some (Inr (IsJob j))" and "P j"
proof (cases r)
  case None
  then show ?thesis using assms by simp
next
  case (Some x)
  show ?thesis
  proof (cases x)
    case (Inl e)
    then show ?thesis using assms Some by simp
  next
    case (Inr y)
    show ?thesis
    proof (cases y)
      case (IsCron c)
      then show ?thesis using assms Some Inr by simp
    next
      case (IsJob j)
      then show ?thesis using assms Some Inr that by simp
    qed
  qed
qed

text \<open>
  Claim C9 says that the option \<^verbatim>\<open>startAt\<close> is stored as the given instant minus one
  millisecond. When the constructor is given a callback, it runs \<^verbatim>\<open>validateOpts\<close> on the
  options and then hands the same object to \<^verbatim>\<open>schedule\<close>, which runs \<^verbatim>\<open>validateOpts\<close> on
  it again: for \<^verbatim>\<open>startAt\<close> 1640995200001 the job stores 1640995199999, two milliseconds
  earlier. With the clock at 1640995199000 the timer is set to 1000 milliseconds, for the
  instant 1640995200000, which is before \<^verbatim>\<open>startAt\<close>.
\<close>

theorem C9_callback_stores_two_milliseconds_earlier:
  "\<exists>j. new_Cron \<lparr>Date_parse = (\<lambda>s. None), now = 1640995199000\<rparr> ''* * * * * *''
           (OptionsArg (emptyOptions\<lparr>startAt := Some (DateObj (Some 1640995200001))\<rparr>))
           (Some ())
         = Some (Inr (IsJob j))
       \<and> startAt (jobOpts j) = Some (DateObj (Some 1640995199999))
       \<and> currentTimeout (jobOpts j) = Some (Some 1000)"
proof -
  let ?h = "\<lparr>Date_parse = (\<lambda>s. None), now = 1640995199000\<rparr>"
  let ?os = "emptyOptions\<lparr>startAt := Some (DateObj (Some 1640995200001))\<rparr>"
  have "case new_Cron ?h ''* * * * * *'' (OptionsArg ?os) (Some ()) of
          Some (Inr (IsJob j)) \<Rightarrow>
            startAt (jobOpts j) = Some (DateObj (Some 1640995199999))
            \<and> currentTimeout (jobOpts j) = Some (Some 1000)
        | _ \<Rightarrow> False"
    by code_simp
  then show ?thesis
    by (rule job_caseE) blast
qed

subsection \<open>A next run that is not later than the reference\<close>

text \<open>
  Claim C8 says that \<^verbatim>\<open>next(r)\<close> is none or an instant later than \<open>r\<close>. For the
  expression \<^verbatim>\<open>0 0 0 1-5 * *\<close> and the reference 2022-01-31T12:00:00 (time value
  1643630400000) the code returns 2022-01-31T00:00:00 (time value 1643587200000), twelve
  hours before the reference: the range has written the key \<^verbatim>\<open>-1\<close> of the days, the
  reset of the days after the carry into the months starts its search at that key and
  sets the day 0 of February.
\<close>

theorem C8_next_before_reference:
  "\<exists>c. new_Cron \<lparr>Date_parse = (\<lambda>s. None), now = 0\<rparr> ''0 0 0 1-5 * *'' NoArg (None :: unit option)
         = Some (Inr (IsCron c))
       \<and> Cron_next \<lparr>Date_parse = (\<lambda>s. None), now = 0\<rparr> c (Some 1643630400000)
           = Some (Defined (Some 1643587200000))"
proof -
  let ?h = "\<lparr>Date_parse = (\<lambda>s. None), now = 0\<rparr>"
  have "case new_Cron ?h ''0 0 0 1-5 * *'' NoArg (None :: unit option) of
          Some (Inr (IsCron c)) \<Rightarrow>
            Cron_next ?h c (Some 1643630400000) = Some (Defined (Some 1643587200000))
        | _ \<Rightarrow> False"
    by code_simp
  then show ?thesis
    by (rule scheduler_caseE) blast
qed

section \<open>Termination of the increment\<close>

subsection \<open>The cascade over the rows of toDo\<close>

lemma find_upto_first: "i \<le> j \<Longrightarrow> P i \<Longrightarrow> List.find P [i..j] = Some i"
  by (subst upto.simps) simp

lemma find_upto_Some: "List.find P [i..j] = Some x \<Longrightarrow> i \<le> x \<and> x \<le> j \<and> P x"
  by (auto simp: find_Some_iff)

lemma find_upto_None: "List.find P [i..j] = None \<longleftrightarrow> (\<forall>x. i \<le> x \<and> x \<le> j \<longrightarrow> \<not> P x)"
  by (auto simp: find_None_iff)

lemma getMember_setMember:
  "getMember (setMember s t v) t' = (if t' = t \<and> t \<noteq> DaysOfWeek then v else getMember s t')"
  by (cases t; cases t') (simp_all add: getMember_def setMember_def)

lemma setMember_getMember [simp]: "setMember s t (getMember s t) = s"
  by (cases t) (simp_all add: getMember_def setMember_def)

lemma tm_simps:
  "tm 0 = Seconds" "tm (Suc 0) = Minutes" "tm 2 = Hours" "tm 3 = Days" "tm 4 = Months"
  by (simp_all add: tm_def toDo_def numeral_eq_Suc)

lemma tnext_simps:
  "tnext 0 = Minutes" "tnext (Suc 0) = Hours" "tnext 2 = Days" "tnext 3 = Months" "tnext 4 = Years"
  by (simp_all add: tnext_def toDo_def numeral_eq_Suc)

lemma toff_simps:
  "toff 0 = 0" "toff (Suc 0) = 0" "toff 2 = 0" "toff 3 = -1" "toff 4 = 0"
  by (simp_all add: toff_def toDo_def numeral_eq_Suc)

lemma level_cases: "k < 5 \<Longrightarrow> k = 0 \<or> k = Suc 0 \<or> k = 2 \<or> k = 3 \<or> k = 4"
  by arith

lemma tm_not_dow: "k < 5 \<Longrightarrow> tm k \<noteq> DaysOfWeek \<and> tm k \<noteq> Years"
  using level_cases [of k] by (auto simp: tm_simps)

lemma tm_inj: "j < 5 \<Longrightarrow> k < 5 \<Longrightarrow> tm j = tm k \<Longrightarrow> j = k"
  using level_cases [of k] level_cases [of j] by (auto simp: tm_simps)

lemma tnext_above: "j \<le> k \<Longrightarrow> k < 5 \<Longrightarrow> tm j \<noteq> tnext k"
  using level_cases [of k] level_cases [of j] by (auto simp: tm_simps tnext_simps)

lemma toff_nonpos: "k < 5 \<Longrightarrow> toff k \<le> 0"
  using level_cases [of k] by (auto simp: toff_simps)

lemma findNext_found:
  assumes "findNext s t p off ovr = (True, s')"
  shows "\<exists>i. s' = setMember s t (i - off) \<and> truthy (part p t) (Some i)
             \<and> i < int (len (part p t))
             \<and> (if ovr then 0 + off else getMember s t + off) \<le> i"
proof -
  from assms obtain i where
    f: "List.find (\<lambda>i. truthy (part p t) (Some i))
          [(if \<not> ovr then getMember s t + off else 0 + off)..int (len (part p t)) - 1] = Some i"
    and s': "s' = setMember s t (i - off)"
    by (auto simp: findNext_def Let_def split: option.splits)
  from find_upto_Some [OF f] s' show ?thesis by (intro exI [of _ i]) auto
qed

lemma findNext_not_found:
  assumes "findNext s t p off ovr = (False, s')"
  shows "s' = s"
  using assms by (auto simp: findNext_def Let_def split: option.splits)

lemma findNext_settled:
  assumes "settled p s k"
  shows "findNext s (tm k) p (toff k) False = (True, s)"
proof -
  let ?i = "getMember s (tm k) + toff k"
  have "List.find (\<lambda>i. truthy (part p (tm k)) (Some i)) [?i..int (len (part p (tm k))) - 1] = Some ?i"
    using assms by (intro find_upto_first) (auto simp: settled_def)
  then show ?thesis by (simp add: findNext_def)
qed

lemma findNext_override:
  assumes "hasElement (part p t)" and "off \<le> 0"
  shows "\<exists>i. findNext s t p off True = (True, setMember s t (i - off))
             \<and> truthy (part p t) (Some i) \<and> i < int (len (part p t)) \<and> off \<le> i"
proof -
  from assms(1) obtain e where e: "0 \<le> e" "e < int (len (part p t))" "truthy (part p t) (Some e)"
    by (auto simp: hasElement_def)
  have "List.find (\<lambda>i. truthy (part p t) (Some i)) [0 + off..int (len (part p t)) - 1] \<noteq> None"
    using e assms(2) by (auto simp: find_upto_None intro!: exI [of _ e])
  then obtain i where
    f: "List.find (\<lambda>i. truthy (part p t) (Some i)) [0 + off..int (len (part p t)) - 1] = Some i"
    by blast
  from find_upto_Some [OF f] f show ?thesis
    by (intro exI [of _ i]) (auto simp: findNext_def)
qed

lemma settled_setMember_same:
  assumes "k < 5" "truthy (part p (tm k)) (Some i)" "i < int (len (part p (tm k)))"
  shows "settled p (setMember s (tm k) (i - toff k)) k"
  using assms tm_not_dow [of k] by (simp add: settled_def getMember_setMember)

lemma settled_setMember_other:
  assumes "tm j \<noteq> t"
  shows "settled p (setMember s t v) j = settled p s j"
  using assms by (simp add: settled_def getMember_setMember)


lemma settled_cong:
  "getMember s (tm j) = getMember s' (tm j) \<Longrightarrow> settled p s j = settled p s' j"
  by (simp add: settled_def)

lemma resetMembers_step:
  "resetMembers s p (int k)
     = resetMembers (snd (findNext s (tm k) p (toff k) True)) p (int k - 1)"
  by (subst resetMembers.simps) (simp add: tm_def toff_def)

lemma resetMembers_done: "resetMembers s p (- 1) = (s, - 1)"
  by (subst resetMembers.simps) simp

lemma milliseconds_setMember: "milliseconds (setMember s t v) = milliseconds s"
  by (cases t) (simp_all add: setMember_def)

lemma resetMembers_settles:
  assumes ne: "\<forall>j<5. hasElement (part p (tm j))"
  shows "k < 5 \<Longrightarrow>
         \<exists>s2. resetMembers s p (int k) = (s2, - 1)
             \<and> (\<forall>j\<le>k. settled p s2 j)
             \<and> (\<forall>t. (\<forall>j\<le>k. t \<noteq> tm j) \<longrightarrow> getMember s2 t = getMember s t)
             \<and> milliseconds s2 = milliseconds s"
proof (induction k arbitrary: s)
  case 0
  obtain i where i: "findNext s (tm 0) p (toff 0) True = (True, setMember s (tm 0) (i - toff 0))"
    "truthy (part p (tm 0)) (Some i)" "i < int (len (part p (tm 0)))"
    using findNext_override [of p "tm 0" "toff 0" s] ne [rule_format, of 0] toff_nonpos [of 0]
    by auto
  let ?s' = "setMember s (tm 0) (i - toff 0)"
  have "resetMembers s p (int 0) = (?s', - 1)"
    using resetMembers_step [of s p 0] i(1) by (simp add: resetMembers_done)
  moreover have "settled p ?s' 0" using i by (intro settled_setMember_same) auto
  moreover have "\<forall>t. t \<noteq> tm 0 \<longrightarrow> getMember ?s' t = getMember s t"
    by (simp add: getMember_setMember)
  moreover have "milliseconds ?s' = milliseconds s" by (rule milliseconds_setMember)
  ultimately show ?case by auto
next
  case (Suc k)
  then have k: "k < 5" and sk: "Suc k < 5" by auto
  obtain i where i:
    "findNext s (tm (Suc k)) p (toff (Suc k)) True
       = (True, setMember s (tm (Suc k)) (i - toff (Suc k)))"
    "truthy (part p (tm (Suc k))) (Some i)" "i < int (len (part p (tm (Suc k))))"
    using findNext_override [of p "tm (Suc k)" "toff (Suc k)" s] ne [rule_format, OF sk]
      toff_nonpos [OF sk]
    by auto
  let ?s' = "setMember s (tm (Suc k)) (i - toff (Suc k))"
  have st: "settled p ?s' (Suc k)" using i sk by (intro settled_setMember_same) auto
  from Suc.IH [OF k, of ?s'] obtain s2 where s2:
    "resetMembers ?s' p (int k) = (s2, - 1)" "\<forall>j\<le>k. settled p s2 j"
    "\<forall>t. (\<forall>j\<le>k. t \<noteq> tm j) \<longrightarrow> getMember s2 t = getMember ?s' t"
    "milliseconds s2 = milliseconds ?s'"
    by blast
  have r: "resetMembers s p (int (Suc k)) = (s2, - 1)"
    using resetMembers_step [of s p "Suc k"] i(1) s2(1) by simp
  have "\<forall>j\<le>k. tm (Suc k) \<noteq> tm j"
  proof (intro allI impI notI)
    fix j assume "j \<le> k" "tm (Suc k) = tm j"
    then show False using tm_inj [of "Suc k" j] sk by simp
  qed
  then have same: "getMember s2 (tm (Suc k)) = getMember ?s' (tm (Suc k))" using s2(3) by blast
  have "settled p s2 (Suc k)" using st settled_cong [OF same] by simp
  then have a: "\<forall>j\<le>Suc k. settled p s2 j" using s2(2) by (auto simp: le_Suc_eq)
  have b: "\<forall>t. (\<forall>j\<le>Suc k. t \<noteq> tm j) \<longrightarrow> getMember s2 t = getMember s t"
  proof (intro allI impI)
    fix t assume t: "\<forall>j\<le>Suc k. t \<noteq> tm j"
    then have "getMember s2 t = getMember ?s' t" using s2(3) by auto
    also have "\<dots> = getMember s t" using t by (simp add: getMember_setMember)
    finally show "getMember s2 t = getMember s t" .
  qed
  have c: "milliseconds s2 = milliseconds s" using s2(4) by (simp add: milliseconds_setMember)
  from r a b c show ?case by blast
qed

lemma cascade_done: "cascade s p 5 = Some s"
  by (subst cascade.simps) simp

lemma cascade_step:
  "k < 5 \<Longrightarrow>
   cascade s p (int k) =
     (case findNext s (tm k) p (toff k) False of
        (found, s1) \<Rightarrow>
          if \<not> found then
            (case resetMembers (setMember s1 (tnext k) (getMember s1 (tnext k) + 1)) p (int k) of
               (s2, doing') \<Rightarrow> cascade s2 p (doing' + 1))
          else cascade s1 p (int k + 1))"
  by (subst cascade.simps) (simp add: tm_def toff_def tnext_def split: prod.splits)

lemma cascade_skip_one:
  "k < 5 \<Longrightarrow> settled p s k \<Longrightarrow> cascade s p (int k) = cascade s p (int (Suc k))"
  by (simp add: cascade_step findNext_settled add.commute)

lemma cascade_skip:
  "m \<le> 5 \<Longrightarrow> \<forall>j<m. settled p s j \<Longrightarrow> cascade s p 0 = cascade s p (int m)"
proof (induction m)
  case 0
  then show ?case by simp
next
  case (Suc m)
  then have "cascade s p 0 = cascade s p (int m)" by simp
  also have "\<dots> = cascade s p (int (Suc m))"
    using Suc.prems by (intro cascade_skip_one) auto
  finally show ?case .
qed

lemma years_setMember: "t \<noteq> Years \<Longrightarrow> years (setMember s t v) = years s"
  by (cases t) (simp_all add: setMember_def)

lemma years_getMember: "years s = getMember s Years"
  by (simp add: getMember_def)

lemma cascade_terminates_from:
  assumes ne: "\<forall>j<5. hasElement (part p (tm j))"
  shows "k \<le> 5 \<Longrightarrow> \<forall>j<k. settled p s j \<Longrightarrow>
         \<exists>cd. cascade s p (int k) = Some cd \<and> (\<forall>j<5. settled p cd j)
              \<and> years s \<le> years cd \<and> years cd \<le> years s + 1 \<and> (k = 5 \<longrightarrow> cd = s)
              \<and> milliseconds cd = milliseconds s"
proof (induction "5 - k" arbitrary: k s)
  case 0
  then have "k = 5" by simp
  then show ?case using 0 by (simp add: cascade_done)
next
  case (Suc n)
  then have k: "k < 5" and n: "n = 5 - Suc k" and sk: "Suc k \<le> 5" by auto
  obtain found s1 where f: "findNext s (tm k) p (toff k) False = (found, s1)"
    by (cases "findNext s (tm k) p (toff k) False")
  show ?case
  proof (cases found)
    case True
    have f': "findNext s (tm k) p (toff k) False = (True, s1)" using f True by simp
    from findNext_found [OF f'] obtain i where i:
      "s1 = setMember s (tm k) (i - toff k)" "truthy (part p (tm k)) (Some i)"
      "i < int (len (part p (tm k)))"
      by blast
    have "settled p s1 k" unfolding i(1) using k i(2,3) by (rule settled_setMember_same)
    moreover have "settled p s1 j" if "j < k" for j
    proof -
      have "tm j \<noteq> tm k" using tm_inj [of j k] that k by auto
      then show ?thesis using Suc.prems(2) that by (simp add: i(1) settled_setMember_other)
    qed
    ultimately have all: "\<forall>j<Suc k. settled p s1 j" by (auto simp: less_Suc_eq)
    have y: "years s1 = years s" "milliseconds s1 = milliseconds s"
      using tm_not_dow [OF k] by (simp_all add: i(1) years_setMember milliseconds_setMember)
    from Suc.hyps(1) [OF n sk all] obtain cd where cd:
      "cascade s1 p (int (Suc k)) = Some cd" "\<forall>j<5. settled p cd j"
      "years s1 \<le> years cd" "years cd \<le> years s1 + 1" "milliseconds cd = milliseconds s1"
      by blast
    have "cascade s p (int k) = Some cd"
      using cd(1) f True k by (simp add: cascade_step add.commute)
    then show ?thesis using cd y k by auto
  next
    case False
    have s1: "s1 = s"
      using findNext_not_found [of s "tm k" p "toff k" False s1] f False by simp
    let ?s' = "setMember s (tnext k) (getMember s (tnext k) + 1)"
    from resetMembers_settles [OF ne k, of ?s'] obtain s2 where s2:
      "resetMembers ?s' p (int k) = (s2, - 1)" "\<forall>j\<le>k. settled p s2 j"
      "\<forall>t. (\<forall>j\<le>k. t \<noteq> tm j) \<longrightarrow> getMember s2 t = getMember ?s' t"
      "milliseconds s2 = milliseconds ?s'"
      by blast
    have c: "cascade s p (int k) = cascade s2 p 0"
      using f False s1 s2(1) k by (simp add: cascade_step)
    have all: "\<forall>j<Suc k. settled p s2 j" using s2(2) by (auto simp: less_Suc_eq_le)
    have c2: "cascade s2 p 0 = cascade s2 p (int (Suc k))"
      using sk all by (rule cascade_skip)
    from Suc.hyps(1) [OF n sk all] obtain cd where cd:
      "cascade s2 p (int (Suc k)) = Some cd" "\<forall>j<5. settled p cd j"
      "years s2 \<le> years cd" "years cd \<le> years s2 + 1" "Suc k = 5 \<longrightarrow> cd = s2"
      "milliseconds cd = milliseconds s2"
      by blast
    have "\<forall>j\<le>k. Years \<noteq> tm j" using tm_not_dow k by (metis le_less_trans)
    then have y2: "years s2 = years ?s'" using s2(3) by (simp add: years_getMember)
    have y: "years ?s' = (if k = 4 then years s + 1 else years s)"
      using level_cases [OF k] by (auto simp: years_getMember getMember_setMember tnext_simps)
    have "years s \<le> years cd \<and> years cd \<le> years s + 1"
    proof (cases "k = 4")
      case True
      then have "cd = s2" using cd(5) by simp
      then show ?thesis using y2 y True by simp
    next
      case False
      then show ?thesis using cd(3,4) y2 y by simp
    qed
    moreover have "milliseconds cd = milliseconds s"
      using cd(6) s2(4) by (simp add: milliseconds_setMember)
    ultimately show ?thesis using c c2 cd(1,2) k by auto
  qed
qed

subsection \<open>Dates within the range of the host\<close>

lemma div_sandwich:
  fixes x :: int
  assumes "0 < c"
  shows "c * (x div c) \<le> x" "x < c * (x div c) + c"
proof -
  have "x = c * (x div c) + x mod c" by simp
  moreover have "0 \<le> x mod c" "x mod c < c" using assms by simp_all
  ultimately show "c * (x div c) \<le> x" "x < c * (x div c) + c" by linarith+
qed

lemma DayFromYear_bounds:
  assumes "- 256000 \<le> y" "y \<le> 256000"
  shows "- 94300000 \<le> DayFromYear y" "DayFromYear y \<le> 92800000"
proof -
  define a where "a = (y - 1969) div 4"
  define b where "b = (y - 1901) div 100"
  define c where "c = (y - 1601) div 400"
  have a: "4 * a \<le> y - 1969" "y - 1969 < 4 * a + 4"
    unfolding a_def by (rule div_sandwich, simp)+
  have b: "100 * b \<le> y - 1901" "y - 1901 < 100 * b + 100"
    unfolding b_def by (rule div_sandwich, simp)+
  have c: "400 * c \<le> y - 1601" "y - 1601 < 400 * c + 400"
    unfolding c_def by (rule div_sandwich, simp)+
  have d: "400 * DayFromYear y = 146000 * (y - 1970) + 100 * (4 * a) - 4 * (100 * b) + 400 * c"
    by (simp add: DayFromYear_def a_def b_def c_def)
  have "100 * (y - 1973) \<le> 100 * (4 * a)" using a(2) by simp
  moreover have "4 * (100 * b) \<le> 4 * (y - 1901)" using b(1) by simp
  moreover have "y - 2001 \<le> 400 * c" using c(2) by simp
  ultimately have "146000 * (y - 1970) + 100 * (y - 1973) - 4 * (y - 1901) + (y - 2001)
      \<le> 400 * DayFromYear y"
    unfolding d by linarith
  then have "400 * (- 94300000) \<le> 400 * DayFromYear y" using assms(1) by simp
  then show "- 94300000 \<le> DayFromYear y" by simp
  have "100 * (4 * a) \<le> 100 * (y - 1969)" using a(1) by simp
  moreover have "4 * (y - 2001) \<le> 4 * (100 * b)" using b(2) by simp
  moreover have "400 * c \<le> y - 1601" using c(1) by simp
  ultimately have "400 * DayFromYear y
      \<le> 146000 * (y - 1970) + 100 * (y - 1969) - 4 * (y - 2001) + (y - 1601)"
    unfolding d by linarith
  then have "400 * DayFromYear y \<le> 400 * 92800000" using assms(2) by simp
  then show "DayFromYear y \<le> 92800000" by simp
qed

lemma monthStart_bounds:
  assumes "0 \<le> m" "m \<le> 11"
  shows "0 \<le> monthStart m l \<and> monthStart m l \<le> 335"
proof -
  have "m \<in> {0..11}" using assms by simp
  also have "{0..11::int} = set [0..11]" by simp
  also have "\<dots> = {0, 1, 2, 3, 4, 5, 6, 7, 8, 9, 10, 11}" by (simp add: upto.simps)
  finally consider "m = 0" | "m = 1" | "m = 2" | "m = 3" | "m = 4" | "m = 5" | "m = 6" | "m = 7"
    | "m = 8" | "m = 9" | "m = 10" | "m = 11"
    by blast
  then show ?thesis by cases (simp_all add: monthStart_def)
qed

lemma MakeDay_shift: "MakeDay y m (d + j) = MakeDay y m d + j"
  by (simp add: MakeDay_def Let_def)

lemma MakeDay_bounds:
  assumes "- 255000 \<le> y" "y \<le> 255900" "- 1 \<le> m" "m \<le> 11" "- 1 \<le> d" "d \<le> 40"
  shows "- 94400000 \<le> MakeDay y m d" "MakeDay y m d \<le> 92900000"
proof -
  have d: "m div 12 = - 1 \<or> m div 12 = 0" using assms(3,4) by linarith
  then have y: "- 256000 \<le> y + m div 12" "y + m div 12 \<le> 256000" using assms(1,2) by auto
  have ms: "0 \<le> monthStart (m mod 12) (InLeapYear (y + m div 12))
            \<and> monthStart (m mod 12) (InLeapYear (y + m div 12)) \<le> 335"
    by (rule monthStart_bounds) simp_all
  show "- 94400000 \<le> MakeDay y m d" "MakeDay y m d \<le> 92900000"
    using DayFromYear_bounds [OF y] ms assms(5,6) by (simp_all add: MakeDay_def Let_def)
qed


lemma MakeTime_bounds:
  assumes "- 1 \<le> h" "h \<le> 23" "- 1 \<le> mi" "mi \<le> 59" "- 1 \<le> sec" "sec \<le> 59"
    "0 \<le> ms" "ms \<le> 999"
  shows "- 3661000 \<le> MakeTime h mi sec ms" "MakeTime h mi sec ms \<le> 86399999"
  using assms by (simp_all add: MakeTime_def)

lemma getDate_shifted:
  assumes "inRange cd" "0 \<le> j" "j \<le> 6"
  shows "getDate (cd\<lparr>days := days cd + j\<rparr>)
           = Some (MakeDate
                     (MakeDay (if 0 \<le> years cd \<and> years cd \<le> 99 then 1900 + years cd else years cd)
                        (months cd) (days cd) + j)
                     (MakeTime (hours cd) (minutes cd) (seconds cd) (milliseconds cd)))"
proof -
  let ?yr = "if 0 \<le> years cd \<and> years cd \<le> 99 then 1900 + years cd else years cd"
  have y: "- 255000 \<le> ?yr" "?yr \<le> 255900" using assms(1) by (auto simp: inRange_def)
  have md: "- 94400000 \<le> MakeDay ?yr (months cd) (days cd + j)"
    "MakeDay ?yr (months cd) (days cd + j) \<le> 92900000"
    using assms by (intro MakeDay_bounds [OF y]; simp add: inRange_def)+
  have mt: "- 3661000 \<le> MakeTime (hours cd) (minutes cd) (seconds cd) (milliseconds cd)"
    "MakeTime (hours cd) (minutes cd) (seconds cd) (milliseconds cd) \<le> 86399999"
    using assms(1) by (intro MakeTime_bounds; simp add: inRange_def)+
  have "\<bar>MakeDate (MakeDay ?yr (months cd) (days cd + j))
          (MakeTime (hours cd) (minutes cd) (seconds cd) (milliseconds cd))\<bar> \<le> 8640000000000000"
    using md mt by (simp add: MakeDate_def msPerDay_def)
  then show ?thesis
    by (simp add: getDate_def newDate_def TimeClip_def MakeDay_shift Let_def)
qed
lemma Day_MakeDate_shift: "Day (MakeDate (d + j) t) = Day (MakeDate d t) + j"
  by (simp add: Day_def MakeDate_def msPerDay_def algebra_simps)
lemma getDay_shifted:
  assumes "inRange cd" "0 \<le> j" "j \<le> 6"
  shows "getDay (getDate (cd\<lparr>days := days cd + j\<rparr>)) = Some ((baseDay cd + j + 4) mod 7)"
  using getDate_shifted [OF assms]
  by (simp add: getDay_def WeekDay_def baseDay_def Day_MakeDate_shift)

lemma weekday_reachable:
  fixes w b :: int
  assumes "0 \<le> w" "w \<le> 6"
  shows "\<exists>j. 0 \<le> j \<and> j \<le> 6 \<and> (b + j + 4) mod 7 = w"
proof -
  define x where "x = (w - b - 4) mod 7"
  have x0: "0 \<le> x" and x7: "x < 7" by (simp_all add: x_def)
  have e: "b + x + 4 = x + (b + 4)" by simp
  have "(x + (b + 4)) mod 7 = ((w - b - 4) + (b + 4)) mod 7"
    unfolding x_def by (rule mod_add_left_eq)
  also have "(w - b - 4) + (b + 4) = w" by simp
  also have "w mod 7 = w" using assms by simp
  finally have f: "(x + (b + 4)) mod 7 = w" .
  have "(b + x + 4) mod 7 = w" by (subst e) (rule f)
  then show ?thesis using x0 x7 by (intro exI [of _ x]) simp
qed

lemma weekdayLoop_reach:
  "truthy (part p DaysOfWeek) (getDay (getDate (cd\<lparr>days := days cd + int j\<rparr>)))
   \<Longrightarrow> \<exists>i\<le>j. weekdayLoop cd p = Some (cd\<lparr>days := days cd + int i\<rparr>)"
proof (induction j arbitrary: cd)
  case 0
  then have "weekdayLoop cd p = Some cd" by (subst weekdayLoop.simps) simp
  then show ?case by simp
next
  case (Suc j)
  show ?case
  proof (cases "truthy (part p DaysOfWeek) (getDay (getDate cd))")
    case True
    then have "weekdayLoop cd p = Some cd" by (subst weekdayLoop.simps) simp
    then show ?thesis by (intro exI [of _ 0]) simp
  next
    case False
    let ?cd = "cd\<lparr>days := days cd + 1\<rparr>"
    have "?cd\<lparr>days := days ?cd + int j\<rparr> = cd\<lparr>days := days cd + int (Suc j)\<rparr>"
      by (simp add: add.assoc)
    then have "truthy (part p DaysOfWeek) (getDay (getDate (?cd\<lparr>days := days ?cd + int j\<rparr>)))"
      using Suc.prems by (simp only:)
    from Suc.IH [OF this] obtain i where i: "i \<le> j"
      "weekdayLoop ?cd p = Some (?cd\<lparr>days := days ?cd + int i\<rparr>)"
      by blast
    have "weekdayLoop cd p = weekdayLoop ?cd p" using False by (subst weekdayLoop.simps) simp
    then have "weekdayLoop cd p = Some (cd\<lparr>days := days cd + int (Suc i)\<rparr>)"
      using i(2) by (simp add: add.assoc)
    then show ?thesis using i(1) by (intro exI [of _ "Suc i"]) simp
  qed
qed

lemma weekdayLoop_terminates:
  assumes "inRange cd" and "0 \<le> w" "w \<le> 6" "truthy (part p DaysOfWeek) (Some w)"
  shows "\<exists>i\<le>6. weekdayLoop cd p = Some (cd\<lparr>days := days cd + int i\<rparr>)"
proof -
  from weekday_reachable [OF assms(2,3), of "baseDay cd"] obtain j where
    j: "0 \<le> j" "j \<le> 6" "(baseDay cd + j + 4) mod 7 = w"
    by blast
  have "getDay (getDate (cd\<lparr>days := days cd + int (nat j)\<rparr>)) = Some w"
    using getDay_shifted [OF assms(1) j(1,2)] j by simp
  then have "truthy (part p DaysOfWeek) (getDay (getDate (cd\<lparr>days := days cd + int (nat j)\<rparr>)))"
    using assms(4) by simp
  from weekdayLoop_reach [OF this] obtain i where
    "i \<le> nat j" "weekdayLoop cd p = Some (cd\<lparr>days := days cd + int i\<rparr>)"
    by blast
  then show ?thesis using j(2) by (intro exI [of _ i]) auto
qed

subsection \<open>The shape of a compiled pattern\<close>

lemma sameShape_refl: "sameShape this this"
  by (simp add: sameShape_def)

lemma sameShape_trans: "sameShape a b \<Longrightarrow> sameShape b c \<Longrightarrow> sameShape a c"
  by (simp add: sameShape_def)

lemma sameShape_set_part:
  assumes "len arr = len (part this type)" "keysOK (part this type) \<longrightarrow> keysOK arr"
  shows "sameShape this (set_part this type arr)"
  using assms by (auto simp: sameShape_def part_set_part)

lemma wildcard_shape:
  "len (foldl (\<lambda>a i. put1 a (Some (int i))) arr [0..<len arr]) = len arr
   \<and> (keysOK arr \<longrightarrow> keysOK (foldl (\<lambda>a i. put1 a (Some (int i))) arr [0..<len arr]))"
  by (auto simp: wildcard_len keysOK_def wildcard_truthy)

lemma range_shape:
  assumes "rangeToArray arr conf off = Inr arr'" "- 1 \<le> off" "off \<le> 0"
  shows "len arr' = len arr \<and> (keysOK arr \<longrightarrow> keysOK arr')"
proof -
  from assms(1) obtain lower upper where
    a: "arr' = mark_range arr lower upper off" "0 \<le> lower" "upper < int (len arr)"
    by (auto simp: rangeToArray_def Let_def raise_def split: if_splits option.splits)
  have "len arr' = len arr" unfolding a(1) using a(3) assms(3) by (intro mark_range_len) simp
  moreover have "keysOK arr \<longrightarrow> keysOK arr'"
    unfolding a(1) keysOK_def mark_range_truthy using a(2) assms(2) by auto
  ultimately show ?thesis by simp
qed

lemma mark_steps_truthy:
  "truthy (mark_steps arr steps off) k
     = ((\<exists>i. 0 \<le> i \<and> i < int (len arr) \<and> i mod steps = 0 \<and> k = Some (i + off)) \<or> truthy arr k)"
  unfolding mark_steps_def truthy_foldl_put1 by auto

lemma mark_steps_len: "off \<le> 0 \<Longrightarrow> len (mark_steps arr steps off) = len arr"
  unfolding mark_steps_def by (rule len_foldl_put1) auto

lemma stepping_shape:
  assumes "steppingToArray arr conf off = Inr arr'" "- 1 \<le> off" "off \<le> 0"
  shows "len arr' = len arr \<and> (keysOK arr \<longrightarrow> keysOK arr')"
proof -
  from assms(1) obtain steps where a: "arr' = mark_steps arr steps off"
    by (auto simp: steppingToArray_def Let_def raise_def split: if_splits option.splits)
  have "len arr' = len arr" unfolding a using assms(3) by (rule mark_steps_len)
  moreover have "keysOK arr \<longrightarrow> keysOK arr'"
    unfolding a keysOK_def mark_steps_truthy using assms(2) by auto
  ultimately show ?thesis by simp
qed

lemma number_shape:
  assumes "numberToArray arr type conf off = Inr arr'"
  shows "len arr' = len arr \<and> (keysOK arr \<longrightarrow> keysOK arr')"
  using assms
  by (auto simp: numberToArray_def raise_def len_put1 keysOK_def truthy_put1
           split: if_splits option.splits)

lemma map_sum_Inr: "map_sum id f x = Inr y \<Longrightarrow> \<exists>z. x = Inr z \<and> y = f z"
  by (cases x) auto

lemma partToArray_list:
  "conf \<noteq> ''*'' \<Longrightarrow> 1 < length (split CHR '','' conf)
   \<Longrightarrow> partToArray this type conf off = partsToArray this type (split CHR '','' conf) off"
  by (subst partToArray.simps(1)) simp

lemma partToArray_is_range:
  "conf \<noteq> ''*'' \<Longrightarrow> \<not> 1 < length (split CHR '','' conf) \<Longrightarrow> contains conf CHR ''-''
   \<Longrightarrow> partToArray this type conf off
       = map_sum id (set_part this type) (rangeToArray (part this type) conf off)"
  by (subst partToArray.simps(1)) simp

lemma partToArray_is_stepping:
  "conf \<noteq> ''*'' \<Longrightarrow> \<not> 1 < length (split CHR '','' conf) \<Longrightarrow> \<not> contains conf CHR ''-''
   \<Longrightarrow> contains conf CHR ''/''
   \<Longrightarrow> partToArray this type conf off
       = map_sum id (set_part this type) (steppingToArray (part this type) conf off)"
  by (subst partToArray.simps(1)) simp

lemma partToArray_is_number:
  "conf \<noteq> ''*'' \<Longrightarrow> \<not> 1 < length (split CHR '','' conf) \<Longrightarrow> \<not> contains conf CHR ''-''
   \<Longrightarrow> \<not> contains conf CHR ''/''
   \<Longrightarrow> partToArray this type conf off
       = map_sum id (set_part this type) (numberToArray (part this type) type conf off)"
  by (subst partToArray.simps(1)) simp

lemma partsToArray_Cons:
  "partsToArray this type (s # ss) off = Inr this'
   \<Longrightarrow> \<exists>mid. partToArray this type s off = Inr mid \<and> partsToArray mid type ss off = Inr this'"
  by (simp split: sum.splits)

lemma partToArray_shape_step:
  assumes ih: "\<And>this'. conf \<noteq> ''*'' \<Longrightarrow> 1 < length (split CHR '','' conf)
                 \<Longrightarrow> partsToArray this type (split CHR '','' conf) off = Inr this'
                 \<Longrightarrow> sameShape this this'"
    and off: "- 1 \<le> off" "off \<le> 0"
    and r: "partToArray this type conf off = Inr this'"
  shows "sameShape this this'"
proof (cases "conf = ''*''")
  case True
  have "this' = set_part this type
      (foldl (\<lambda>a i. put1 a (Some (int i))) (part this type) [0..<len (part this type)])"
    using r unfolding True partToArray_star by simp
  then show ?thesis using wildcard_shape [of "part this type"] by (simp add: sameShape_set_part)
next
  case ns: False
  show ?thesis
  proof (cases "1 < length (split CHR '','' conf)")
    case True
    have "partsToArray this type (split CHR '','' conf) off = Inr this'"
      using r unfolding partToArray_list [OF ns True] .
    with ns True show ?thesis by (rule ih)
  next
    case nl: False
    show ?thesis
    proof (cases "contains conf CHR ''-''")
      case True
      have "map_sum id (set_part this type) (rangeToArray (part this type) conf off) = Inr this'"
        using r unfolding partToArray_is_range [OF ns nl True] .
      from map_sum_Inr [OF this] obtain arr' where
        a: "rangeToArray (part this type) conf off = Inr arr'" "this' = set_part this type arr'"
        by blast
      show ?thesis unfolding a(2)
        using range_shape [OF a(1) off] by (intro sameShape_set_part) simp_all
    next
      case nr: False
      show ?thesis
      proof (cases "contains conf CHR ''/''")
        case True
        have "map_sum id (set_part this type) (steppingToArray (part this type) conf off)
                = Inr this'"
          using r unfolding partToArray_is_stepping [OF ns nl nr True] .
        from map_sum_Inr [OF this] obtain arr' where
          a: "steppingToArray (part this type) conf off = Inr arr'"
          "this' = set_part this type arr'"
          by blast
        show ?thesis unfolding a(2)
          using stepping_shape [OF a(1) off] by (intro sameShape_set_part) simp_all
      next
        case False
        have "map_sum id (set_part this type) (numberToArray (part this type) type conf off)
                = Inr this'"
          using r unfolding partToArray_is_number [OF ns nl nr False] .
        from map_sum_Inr [OF this] obtain arr' where
          a: "numberToArray (part this type) type conf off = Inr arr'"
          "this' = set_part this type arr'"
          by blast
        show ?thesis unfolding a(2)
          using number_shape [OF a(1)] by (intro sameShape_set_part) simp_all
      qed
    qed
  qed
qed

lemma partToArray_shape:
  "- 1 \<le> off \<Longrightarrow> off \<le> 0 \<Longrightarrow> partToArray this type conf off = Inr this'
     \<Longrightarrow> sameShape this this'"
  "- 1 \<le> off \<Longrightarrow> off \<le> 0 \<Longrightarrow> partsToArray this type confs off = Inr this'
     \<Longrightarrow> sameShape this this'"
proof (induction this type conf off and this type confs off arbitrary: this' and this'
    rule: partToArray_partsToArray.induct)
  case (1 this type conf off)
  show ?case
  proof (rule partToArray_shape_step [OF _ "1.prems"])
    fix x
    assume "conf \<noteq> ''*''" "1 < length (split CHR '','' conf)"
      "partsToArray this type (split CHR '','' conf) off = Inr x"
    then show "sameShape this x" using "1.IH" "1.prems"(1,2) by blast
  qed
next
  case (2 this type off)
  then have "this' = this" by simp
  then show ?case by (simp add: sameShape_refl)
next
  case (3 this type s ss off)
  from partsToArray_Cons [OF "3.prems"(3)] obtain mid where mid:
    "partToArray this type s off = Inr mid" "partsToArray mid type ss off = Inr this'"
    by blast
  have "sameShape this mid" using "3.IH"(1) "3.prems"(1,2) mid(1) by blast
  moreover have "sameShape mid this'" using "3.IH"(2) [OF mid(1)] "3.prems"(1,2) mid(2) by blast
  ultimately show ?case by (rule sameShape_trans)
qed

lemma partsOfPattern_shape:
  "\<forall>e \<in> set es. - 1 \<le> snd (snd e) \<and> snd (snd e) \<le> 0
   \<Longrightarrow> partsOfPattern this es = Inr this' \<Longrightarrow> sameShape this this'"
proof (induction es arbitrary: this)
  case Nil
  then show ?case by (simp add: sameShape_refl)
next
  case (Cons e es)
  obtain type conf off where e: "e = (type, conf, off)" by (cases e)
  from Cons.prems(2) obtain mid where mid: "partToArray this type conf off = Inr mid"
    "partsOfPattern mid es = Inr this'"
    unfolding e by (auto split: sum.splits)
  have "sameShape this mid" using partToArray_shape(1) [OF _ _ mid(1)] Cons.prems(1) e by simp
  moreover have "sameShape mid this'" using Cons.IH [OF _ mid(2)] Cons.prems(1) by simp
  ultimately show ?case by (rule sameShape_trans)
qed

lemma keysOK_fill: "keysOK (fill n)"
  by (simp add: keysOK_def)

lemma parse_Inr:
  assumes "newCronPattern s = Inr p"
  shows "\<exists>this'. partsOfPattern (emptyPattern s)
            [(Seconds, splitParts s ! 0, 0), (Minutes, splitParts s ! 1, 0),
             (Hours, splitParts s ! 2, 0), (Days, splitParts s ! 3, - 1),
             (Months, splitParts s ! 4, - 1), (DaysOfWeek, splitParts s ! 5, 0)] = Inr this'
          \<and> p = (if truthy (part this' DaysOfWeek) (Some 7)
                   then set_part this' DaysOfWeek (put1 (part this' DaysOfWeek) (Some 0))
                   else this')"
proof -
  let ?es = "[(Seconds, splitParts s ! 0, 0), (Minutes, splitParts s ! 1, 0),
             (Hours, splitParts s ! 2, 0), (Days, splitParts s ! 3, - 1),
             (Months, splitParts s ! 4, - 1), (DaysOfWeek, splitParts s ! 5, 0)]"
  have c: "(case partsOfPattern (emptyPattern s) ?es of
              Inl err \<Rightarrow> Inl err
            | Inr this' \<Rightarrow>
                if truthy (part this' DaysOfWeek) (Some 7)
                then Inr (set_part this' DaysOfWeek (put1 (part this' DaysOfWeek) (Some 0)))
                else Inr this') = Inr p"
    using assms
    by (simp add: newCronPattern_def parse_def Let_def raise_def del: partsOfPattern.simps
             split: if_splits sum.split_asm)
  show ?thesis
  proof (cases "partsOfPattern (emptyPattern s) ?es")
    case (Inl e)
    then show ?thesis using c by simp
  next
    case (Inr this')
    then have "p = (if truthy (part this' DaysOfWeek) (Some 7)
                   then set_part this' DaysOfWeek (put1 (part this' DaysOfWeek) (Some 0))
                   else this')"
      using c by (simp split: if_splits)
    then show ?thesis using Inr by blast
  qed
qed

lemma compiled_shape:
  assumes "newCronPattern s = Inr p"
  shows "len (part p m) = len (part (emptyPattern s) m)" and "keysOK (part p m)"
proof -
  from parse_Inr [OF assms] obtain this' where
    t: "partsOfPattern (emptyPattern s)
            [(Seconds, splitParts s ! 0, 0), (Minutes, splitParts s ! 1, 0),
             (Hours, splitParts s ! 2, 0), (Days, splitParts s ! 3, - 1),
             (Months, splitParts s ! 4, - 1), (DaysOfWeek, splitParts s ! 5, 0)] = Inr this'"
    and p: "p = (if truthy (part this' DaysOfWeek) (Some 7)
                   then set_part this' DaysOfWeek (put1 (part this' DaysOfWeek) (Some 0))
                   else this')"
    by blast
  have sh: "sameShape (emptyPattern s) this'"
    by (rule partsOfPattern_shape [OF _ t]) simp
  have ok0: "\<forall>m. keysOK (part (emptyPattern s) m)"
    by (simp add: part_emptyPattern keysOK_fill)
  have l: "len (part this' m) = len (part (emptyPattern s) m)" for m
    using sh by (simp add: sameShape_def)
  have k: "keysOK (part this' m)" for m
    using sh ok0 by (simp add: sameShape_def)
  have l8: "len (part this' DaysOfWeek) = 8" using l [of DaysOfWeek] by (simp add: part_emptyPattern)
  show "len (part p m) = len (part (emptyPattern s) m)"
    using l l8 by (simp add: p part_set_part len_put1)
  show "keysOK (part p m)"
    using k [of m] k [of DaysOfWeek] by (auto simp: p part_set_part keysOK_def truthy_put1)
qed

lemma compiled_sunday:
  assumes "newCronPattern s = Inr p" "truthy (part p DaysOfWeek) (Some 7)"
  shows "truthy (part p DaysOfWeek) (Some 0)"
proof -
  from parse_Inr [OF assms(1)] obtain this' where
    p: "p = (if truthy (part this' DaysOfWeek) (Some 7)
                   then set_part this' DaysOfWeek (put1 (part this' DaysOfWeek) (Some 0))
                   else this')"
    by blast
  show ?thesis
  proof (cases "truthy (part this' DaysOfWeek) (Some 7)")
    case True
    then show ?thesis by (simp add: p part_set_part truthy_put1)
  next
    case False
    then show ?thesis using assms(2) by (simp add: p)
  qed
qed

lemma YearFromTime_bounds:
  assumes "\<bar>r\<bar> \<le> 8000000000000000"
  shows "- 254000 \<le> YearFromTime r" "YearFromTime r \<le> 255800"
proof -
  define d where "d = r div 86400000"
  define q where "q = (d * 400) div 146097"
  have d: "86400000 * d \<le> r" "r < 86400000 * d + 86400000"
    unfolding d_def by (rule div_sandwich, simp)+
  have q: "146097 * q \<le> d * 400" "d * 400 < 146097 * q + 146097"
    unfolding q_def by (rule div_sandwich, simp)+
  have r: "- 8000000000000000 \<le> r" "r \<le> 8000000000000000" using assms by simp_all
  have d1: "- 92592593 \<le> d" using d(2) r(1) by simp
  have d2: "d \<le> 92592592" using d(1) r(2) by simp
  have q1: "- 253600 \<le> q" using q(2) d1 by simp
  have q2: "q \<le> 253600" using q(1) d2 by simp
  have y: "YearFromTime r = 1970 + q + 1 \<or> YearFromTime r = 1970 + q - 1
           \<or> YearFromTime r = 1970 + q"
    by (simp add: YearFromTime_def YearFromDay_def Day_def msPerDay_def Let_def d_def q_def)
  show "- 254000 \<le> YearFromTime r" using y q1 by auto
  show "YearFromTime r \<le> 255800" using y q2 by auto
qed

subsection \<open>The increment on a pattern without an empty part\<close>

lemma accepted_hasElement: "accepted p m \<noteq> {} \<Longrightarrow> hasElement (part p m)"
  by (auto simp: accepted_def hasElement_def)

lemma settled_bounds:
  assumes "settled p cd j" "keysOK (part p (tm j))"
  shows "- 1 - toff j \<le> getMember cd (tm j)"
    and "getMember cd (tm j) < int (len (part p (tm j))) - toff j"
  using assms by (auto simp: settled_def keysOK_def)

lemma getDate_inRange:
  assumes "inRange cd"
  shows "\<exists>t. getDate cd = Some t \<and> \<bar>t\<bar> \<le> 8200000000000000
             \<and> getDay (getDate cd) = Some ((baseDay cd + 4) mod 7)"
proof -
  let ?yr = "if 0 \<le> years cd \<and> years cd \<le> 99 then 1900 + years cd else years cd"
  let ?t = "MakeDate (MakeDay ?yr (months cd) (days cd))
              (MakeTime (hours cd) (minutes cd) (seconds cd) (milliseconds cd))"
  have g: "getDate cd = Some ?t" using getDate_shifted [OF assms, of 0] by simp
  have y: "- 255000 \<le> ?yr" "?yr \<le> 255900" using assms by (auto simp: inRange_def)
  have md: "- 94400000 \<le> MakeDay ?yr (months cd) (days cd)"
    "MakeDay ?yr (months cd) (days cd) \<le> 92900000"
    using assms by (intro MakeDay_bounds [OF y]; simp add: inRange_def)+
  have mt: "- 3661000 \<le> MakeTime (hours cd) (minutes cd) (seconds cd) (milliseconds cd)"
    "MakeTime (hours cd) (minutes cd) (seconds cd) (milliseconds cd) \<le> 86399999"
    using assms by (intro MakeTime_bounds; simp add: inRange_def)+
  have "\<bar>?t\<bar> \<le> 8200000000000000" using md mt by (simp add: MakeDate_def msPerDay_def)
  moreover have "getDay (getDate cd) = Some ((baseDay cd + 4) mod 7)"
    using getDay_shifted [OF assms, of 0] by simp
  ultimately show ?thesis using g by simp
qed

lemma setMilliseconds0_valid:
  assumes "\<bar>t\<bar> \<le> 8200000000000000"
  shows "\<exists>t'. setMilliseconds0 (Some t) = Some t'"
proof -
  define d where "d = t div 86400000"
  have d: "86400000 * d \<le> t" "t < 86400000 * d + 86400000"
    unfolding d_def by (rule div_sandwich, simp)+
  have h: "0 \<le> HourFromTime t" "HourFromTime t \<le> 23"
    and m: "0 \<le> MinFromTime t" "MinFromTime t \<le> 59"
    and s: "0 \<le> SecFromTime t" "SecFromTime t \<le> 59"
    by (simp_all add: HourFromTime_def MinFromTime_def SecFromTime_def)
  have mt: "0 \<le> MakeTime (HourFromTime t) (MinFromTime t) (SecFromTime t) 0"
    "MakeTime (HourFromTime t) (MinFromTime t) (SecFromTime t) 0 \<le> 86399000"
    using h m s by (simp_all add: MakeTime_def)
  have "\<bar>MakeDate (Day t) (MakeTime (HourFromTime t) (MinFromTime t) (SecFromTime t) 0)\<bar>
          \<le> 8640000000000000"
    using assms d mt by (simp add: MakeDate_def Day_def msPerDay_def d_def [symmetric])
  then show ?thesis by (simp add: setMilliseconds0_def TimeClip_def)
qed

text \<open>What the increment leaves for a compiled pattern with no empty part.\<close>

lemma increment_result:
  assumes c: "newCronPattern s = Inr p"
    and ne: "accepted p Seconds \<noteq> {}" "accepted p Minutes \<noteq> {}" "accepted p Hours \<noteq> {}"
      "accepted p Days \<noteq> {}" "accepted p Months \<noteq> {}" "accepted p DaysOfWeek \<noteq> {}"
    and r: "\<bar>r\<bar> \<le> 8000000000000000"
  shows "\<exists>cd i. (\<forall>j<5. settled p cd j) \<and> inRange cd \<and> i \<le> 6
           \<and> weekdayLoop cd p = Some (cd\<lparr>days := days cd + int i\<rparr>)
           \<and> increment (newCronDate r) p = Some (cd\<lparr>days := days cd + int i\<rparr>)
           \<and> YearFromTime r \<le> years cd \<and> years cd \<le> YearFromTime r + 1"
proof -
  let ?s0 = "(newCronDate r)\<lparr>seconds := seconds (newCronDate r) + 1, milliseconds := 0\<rparr>"
  have he: "\<forall>j<5. hasElement (part p (tm j))"
  proof (intro allI impI)
    fix j :: nat assume "j < 5"
    then show "hasElement (part p (tm j))"
      using level_cases [of j] ne by (auto simp: tm_simps intro: accepted_hasElement)
  qed
  from cascade_terminates_from [OF he, of 0 ?s0] obtain cd where cd:
    "cascade ?s0 p 0 = Some cd" "\<forall>j<5. settled p cd j"
    "years ?s0 \<le> years cd" "years cd \<le> years ?s0 + 1" "milliseconds cd = milliseconds ?s0"
    by auto
  have y0: "years ?s0 = YearFromTime r" by (simp add: newCronDate_def)
  have lens: "len (part p Seconds) = 60" "len (part p Minutes) = 60" "len (part p Hours) = 24"
    "len (part p Days) = 31" "len (part p Months) = 12" "len (part p DaysOfWeek) = 8"
    using compiled_shape(1) [OF c] by (simp_all add: part_emptyPattern)
  note ok = compiled_shape(2) [OF c]
  have b0: "- 1 \<le> seconds cd" "seconds cd \<le> 59"
    using settled_bounds [OF cd(2) [rule_format, of 0] ok] lens
    by (simp_all add: tm_simps toff_simps getMember_def)
  have b1: "- 1 \<le> minutes cd" "minutes cd \<le> 59"
    using settled_bounds [OF cd(2) [rule_format, of 1] ok] lens
    by (simp_all add: tm_simps toff_simps getMember_def)
  have b2: "- 1 \<le> hours cd" "hours cd \<le> 23"
    using settled_bounds [OF cd(2) [rule_format, of 2] ok] lens
    by (simp_all add: tm_simps toff_simps getMember_def)
  have b3: "- 1 \<le> days cd" "days cd \<le> 31"
    using settled_bounds [OF cd(2) [rule_format, of 3] ok] lens
    by (simp_all add: tm_simps toff_simps getMember_def)
  have b4: "- 1 \<le> months cd" "months cd \<le> 11"
    using settled_bounds [OF cd(2) [rule_format, of 4] ok] lens
    by (simp_all add: tm_simps toff_simps getMember_def)
  have yb: "- 255000 \<le> years cd" "years cd \<le> 255900"
    using YearFromTime_bounds [OF r] cd(3,4) y0 by simp_all
  have ir: "inRange cd"
    using b0 b1 b2 b3 b4 yb cd(5) by (simp add: inRange_def)
  obtain v where v: "0 \<le> v" "v < 8" "truthy (part p DaysOfWeek) (Some v)"
    using ne(6) lens(6) by (auto simp: accepted_def indexOffset_def)
  have "\<exists>w. 0 \<le> w \<and> w \<le> 6 \<and> truthy (part p DaysOfWeek) (Some w)"
  proof (cases "v = 7")
    case True
    then have "truthy (part p DaysOfWeek) (Some 0)" using compiled_sunday [OF c] v(3) by simp
    then show ?thesis by (intro exI [of _ 0]) simp
  next
    case False
    then show ?thesis using v by (intro exI [of _ v]) simp
  qed
  then obtain w where w: "0 \<le> w" "w \<le> 6" "truthy (part p DaysOfWeek) (Some w)" by blast
  from weekdayLoop_terminates [OF ir w] obtain i where
    i: "i \<le> 6" "weekdayLoop cd p = Some (cd\<lparr>days := days cd + int i\<rparr>)"
    by blast
  have "increment (newCronDate r) p = Some (cd\<lparr>days := days cd + int i\<rparr>)"
    using cd(1) i by (simp add: increment_def)
  then show ?thesis using cd(2,3,4) y0 ir i by (intro exI [of _ cd] exI [of _ i]) simp
qed

subsection \<open>A pattern that accepts no month\<close>

lemma findNext_other_months:
  assumes "t \<noteq> Months"
  shows "months (snd (findNext s t p off ovr)) = months s"
  using assms by (cases t) (simp_all add: findNext_def Let_def setMember_def split: option.splits)

lemma findNext_no_month:
  assumes e: "\<And>i. 0 \<le> i \<Longrightarrow> \<not> truthy (part p Months) (Some i)"
    and s: "0 \<le> (if \<not> ovr then getMember s Months + off else 0 + off)"
  shows "findNext s Months p off ovr = (False, s)"
proof -
  have "List.find (\<lambda>i. truthy (part p Months) (Some i))
          [(if \<not> ovr then getMember s Months + off else 0 + off)..int (len (part p Months)) - 1] = None"
    unfolding find_upto_None using e s by auto
  then show ?thesis by (simp add: findNext_def Let_def)
qed

lemma findNext_row_months:
  assumes e: "\<And>i. 0 \<le> i \<Longrightarrow> \<not> truthy (part p Months) (Some i)"
    and k: "k < 5" and m: "0 \<le> months s"
  shows "months (snd (findNext s (tm k) p (toff k) ovr)) = months s"
proof (cases "k = 4")
  case True
  have "findNext s Months p 0 ovr = (False, s)"
    using m by (intro findNext_no_month [OF e]) (simp_all add: getMember_def)
  then show ?thesis using True by (simp add: tm_simps toff_simps)
next
  case False
  then have "tm k \<noteq> Months" using level_cases [OF k] by (auto simp: tm_simps)
  then show ?thesis by (rule findNext_other_months)
qed

lemma resetMembers_no_month:
  assumes e: "\<And>i. 0 \<le> i \<Longrightarrow> \<not> truthy (part p Months) (Some i)"
  shows "k < 5 \<Longrightarrow> 0 \<le> months s \<Longrightarrow>
         snd (resetMembers s p (int k)) = - 1 \<and> 0 \<le> months (fst (resetMembers s p (int k)))"
proof (induction k arbitrary: s)
  case 0
  have "months (snd (findNext s (tm 0) p (toff 0) True)) = months s"
    using 0 by (intro findNext_row_months [OF e]) simp_all
  then show ?case using 0 by (simp add: resetMembers_step [of s p 0, simplified] resetMembers_done)
next
  case (Suc k)
  let ?s' = "snd (findNext s (tm (Suc k)) p (toff (Suc k)) True)"
  have "months ?s' = months s" using Suc.prems by (intro findNext_row_months [OF e]) simp_all
  then have m: "0 \<le> months ?s'" using Suc.prems by simp
  have "resetMembers s p (int (Suc k)) = resetMembers ?s' p (int k)"
    using resetMembers_step [of s p "Suc k"] by simp
  then show ?case using Suc.IH [OF _ m] Suc.prems(1) by simp
qed

lemma cascade_no_month:
  assumes e: "\<And>i. 0 \<le> i \<Longrightarrow> \<not> truthy (part p Months) (Some i)"
    and m: "0 \<le> months s" and k: "k < 5"
  shows "cascade s p (int k) = None"
proof (rule ccontr)
  assume "cascade s p (int k) \<noteq> None"
  then obtain y where y: "cascade s p (int k) = Some y" by auto
  have main: "pat = p \<longrightarrow> 0 \<le> months self \<longrightarrow> 0 \<le> doing \<longrightarrow> doing < 5 \<longrightarrow> False"
    if "cascade self pat doing = Some y" for self pat doing y
  proof (rule cascade.raw_induct
      [where P = "\<lambda>self pat doing y. pat = p \<longrightarrow> 0 \<le> months self \<longrightarrow> 0 \<le> doing \<longrightarrow> doing < 5 \<longrightarrow> False",
        OF _ that], intro impI)
    fix c self pat doing and y :: CronDate
    assume IH: "\<And>self pat doing y. c self pat doing = Some y \<Longrightarrow>
        pat = p \<longrightarrow> 0 \<le> months self \<longrightarrow> 0 \<le> doing \<longrightarrow> doing < 5 \<longrightarrow> False"
      and step: "(if doing < 5 then
        (case findNext self (fst (toDo ! nat doing)) pat (snd (snd (toDo ! nat doing))) False of
           (found, self1) \<Rightarrow>
             if \<not> found then
               (case resetMembers
                       (setMember self1 (fst (snd (toDo ! nat doing)))
                          (getMember self1 (fst (snd (toDo ! nat doing))) + 1))
                       pat doing of
                  (self2, doing') \<Rightarrow> c self2 pat (doing' + 1))
             else c self1 pat (doing + 1))
      else Some self) = Some y"
      and pp: "pat = p" and ms: "0 \<le> months self" and d0: "0 \<le> doing" and d5: "doing < 5"
    define j where "j = nat doing"
    have j: "j < 5" "doing = int j" using d0 d5 by (simp_all add: j_def)
    obtain found self1 where f: "findNext self (tm j) p (toff j) False = (found, self1)"
      by (cases "findNext self (tm j) p (toff j) False")
    have m1: "months self1 = months self"
      using findNext_row_months [OF e j(1) ms, of False] f by simp
    show False
    proof (cases found)
      case True
      have j4: "j \<noteq> 4"
      proof
        assume "j = 4"
        then have "findNext self (tm j) p (toff j) False = (False, self)"
          using ms by (simp add: tm_simps toff_simps findNext_no_month [OF e] getMember_def)
        with f True show False by simp
      qed
      have "c self1 pat (doing + 1) = Some y"
        using step d5 f True pp j by (simp add: tm_def toff_def)
      from IH [OF this] show False using pp m1 ms j j4 by auto
    next
      case False
      let ?s' = "setMember self1 (tnext j) (getMember self1 (tnext j) + 1)"
      have ms': "0 \<le> months ?s'"
        using level_cases [OF j(1)] m1 ms
        by (auto simp: tnext_simps setMember_def getMember_def)
      obtain self2 doing' where r: "resetMembers ?s' p (int j) = (self2, doing')"
        by (cases "resetMembers ?s' p (int j)")
      from resetMembers_no_month [OF e j(1) ms'] r
      have r2: "doing' = - 1" "0 \<le> months self2" by simp_all
      have "c self2 pat (doing' + 1) = Some y"
        using step d5 f False pp j r by (simp add: tm_def toff_def tnext_def)
      from IH [OF this] show False using pp r2 by simp
    qed
  qed
  from main [OF y] m k show False by simp
qed

lemma MonthFromTime_nonneg: "0 \<le> MonthFromTime t"
  by (simp add: MonthFromTime_def MonthFromDayWithinYear_def)

text \<open>A compiled pattern that accepts no month: the increment does not return.\<close>

lemma increment_no_month:
  assumes "accepted p Months = {}"
  shows "increment (newCronDate r) p = None"
proof -
  have e: "\<not> truthy (part p Months) (Some i)" if "0 \<le> i" for i
  proof
    assume t: "truthy (part p Months) (Some i)"
    then have "i < int (len (part p Months))" using that by (simp add: truthy_def)
    then have "i + 1 \<in> accepted p Months"
      using t that by (simp add: accepted_def indexOffset_def)
    then show False using assms by simp
  qed
  have "cascade ((newCronDate r)\<lparr>seconds := seconds (newCronDate r) + 1, milliseconds := 0\<rparr>) p (int 0)
          = None"
    by (rule cascade_no_month [OF e]) (simp_all add: newCronDate_def MonthFromTime_nonneg)
  then show ?thesis by (simp add: increment_def)
qed

lemma every_twelfth_month_never_returns:
  "\<exists>p. newCronPattern ''* * * * */12 *'' = Inr p \<and> increment (newCronDate r) p = None"
proof -
  have "case newCronPattern ''* * * * */12 *'' of
          Inl e \<Rightarrow> False
        | Inr p \<Rightarrow> acceptedList p Months = []"
    by code_simp
  then obtain p where p: "newCronPattern ''* * * * */12 *'' = Inr p"
    and a: "accepted p Months = {}"
    by (cases "newCronPattern ''* * * * */12 *''") (simp_all add: accepted_eq_list)
  from increment_no_month [OF a] p show ?thesis by blast
qed

subsection \<open>The end of the range of dates\<close>

lemma weekdayLoop_invalid:
  assumes nan: "\<not> truthy (part p DaysOfWeek) None"
    and inv: "\<And>d. days cd \<le> d \<Longrightarrow> getDate (cd\<lparr>days := d\<rparr>) = None"
  shows "weekdayLoop cd p = None"
proof (rule ccontr)
  assume "weekdayLoop cd p \<noteq> None"
  then obtain y where y: "weekdayLoop cd p = Some y" by auto
  have main: "pat = p \<longrightarrow> (\<exists>d. days cd \<le> d \<and> self = cd\<lparr>days := d\<rparr>) \<longrightarrow> False"
    if "weekdayLoop self pat = Some y" for self pat y
  proof (rule weekdayLoop.raw_induct
      [where P = "\<lambda>self pat y. pat = p \<longrightarrow> (\<exists>d. days cd \<le> d \<and> self = cd\<lparr>days := d\<rparr>) \<longrightarrow> False",
        OF _ that], intro impI)
    fix wl self pat and y :: CronDate
    assume IH: "\<And>self pat y. wl self pat = Some y \<Longrightarrow>
        pat = p \<longrightarrow> (\<exists>d. days cd \<le> d \<and> self = cd\<lparr>days := d\<rparr>) \<longrightarrow> False"
      and step: "(if \<not> truthy (part pat DaysOfWeek) (getDay (getDate self))
                  then wl (self\<lparr>days := days self + 1\<rparr>) pat else Some self) = Some y"
      and pp: "pat = p" and ex: "\<exists>d. days cd \<le> d \<and> self = cd\<lparr>days := d\<rparr>"
    from ex obtain d where d: "days cd \<le> d" "self = cd\<lparr>days := d\<rparr>" by blast
    have "getDate self = None" using inv [OF d(1)] d(2) by simp
    then have "\<not> truthy (part pat DaysOfWeek) (getDay (getDate self))"
      using nan pp by (simp add: getDay_def)
    then have w: "wl (self\<lparr>days := days self + 1\<rparr>) pat = Some y" using step by simp
    have "\<exists>d'. days cd \<le> d' \<and> self\<lparr>days := days self + 1\<rparr> = cd\<lparr>days := d'\<rparr>"
      using d by (intro exI [of _ "d + 1"]) simp
    with IH [OF w] pp show False by blast
  qed
  have "\<exists>d. days cd \<le> d \<and> cd = cd\<lparr>days := d\<rparr>" by (intro exI [of _ "days cd"]) simp
  with main [OF y] show False by blast
qed

text \<open>
  Claim C4 says that the increment terminates for every compiled pattern and every
  reference instant, because it caps the advance of the year and returns none beyond
  the cap. The code has no cap and no such result. For the expression \<^verbatim>\<open>* * * * * *\<close>
  and the last instant that a \<^verbatim>\<open>Date\<close> can hold (time value 8640000000000000, a valid
  date) the cascade stops at one second later, which no \<^verbatim>\<open>Date\<close> holds: \<^verbatim>\<open>getDate\<close> is an
  invalid date, its \<^verbatim>\<open>getDay\<close> is \<^verbatim>\<open>NaN\<close>, the array of the days of the week has no such
  key, and the weekday loop adds days for ever. The increment does not return.
\<close>

theorem C4_no_return_at_last_instant:
  "\<exists>p. newCronPattern ''* * * * * *'' = Inr p
       \<and> newDateOfValue (Some 8640000000000000) = Some 8640000000000000
       \<and> increment (newCronDate 8640000000000000) p = None"
proof -
  let ?cd = "\<lparr>milliseconds = 0, seconds = 1, minutes = 0, hours = 0, days = 13,
              months = 8, years = 275760\<rparr>"
  have "case newCronPattern ''* * * * * *'' of
          Inl e \<Rightarrow> False
        | Inr p \<Rightarrow>
            cascade ((newCronDate 8640000000000000)
                       \<lparr>seconds := seconds (newCronDate 8640000000000000) + 1,
                        milliseconds := 0\<rparr>) p 0 = Some ?cd
            \<and> \<not> truthy (part p DaysOfWeek) None"
    by code_simp
  then obtain p where p: "newCronPattern ''* * * * * *'' = Inr p"
    and c: "cascade ((newCronDate 8640000000000000)
                       \<lparr>seconds := seconds (newCronDate 8640000000000000) + 1,
                        milliseconds := 0\<rparr>) p 0 = Some ?cd"
    and n: "\<not> truthy (part p DaysOfWeek) None"
    by (cases "newCronPattern ''* * * * * *''") simp_all
  have m: "MakeDay 275760 8 13 = 100000000" by code_simp
  have "getDate (?cd\<lparr>days := d\<rparr>) = None" if "days ?cd \<le> d" for d
  proof -
    have "MakeDay 275760 8 (13 + (d - 13)) = 100000000 + (d - 13)"
      unfolding MakeDay_shift m ..
    then have "MakeDay 275760 8 d = 100000000 + (d - 13)" by simp
    then show ?thesis
      using that by (simp add: getDate_def newDate_def TimeClip_def MakeDate_def MakeTime_def msPerDay_def)
  qed
  with n have "weekdayLoop ?cd p = None" by (rule weekdayLoop_invalid)
  then have "increment (newCronDate 8640000000000000) p = None"
    using c by (simp add: increment_def)
  moreover have "newDateOfValue (Some 8640000000000000) = Some 8640000000000000"
    by (simp add: newDateOfValue_def TimeClip_def)
  ultimately show ?thesis using p by blast
qed

text \<open>
  Claim C4, as amended: the increment has no cap on the year and no result that stands
  for none. For every compiled pattern none of whose six acceptance sets is empty, and
  every reference instant of absolute time value at most 8000000000000000 ms, the
  increment returns, and the year of the date that it leaves is the year of the
  reference or the year after it.
\<close>

theorem C4_increment_terminates_in_range:
  assumes "newCronPattern s = Inr p"
    and "accepted p Seconds \<noteq> {}" "accepted p Minutes \<noteq> {}" "accepted p Hours \<noteq> {}"
      "accepted p Days \<noteq> {}" "accepted p Months \<noteq> {}" "accepted p DaysOfWeek \<noteq> {}"
    and "\<bar>r\<bar> \<le> 8000000000000000"
  shows "\<exists>cd. increment (newCronDate r) p = Some cd
           \<and> YearFromTime r \<le> years cd \<and> years cd \<le> YearFromTime r + 1"
proof -
  from increment_result [OF assms] obtain cd i where
    "increment (newCronDate r) p = Some (cd\<lparr>days := days cd + int i\<rparr>)"
    "YearFromTime r \<le> years cd" "years cd \<le> YearFromTime r + 1"
    by blast
  then show ?thesis by (intro exI [of _ "cd\<lparr>days := days cd + int i\<rparr>"]) simp
qed

theorem C4_increment_terminates_in_range_witness:
  "\<exists>p. newCronPattern ''* * * * * *'' = Inr p
       \<and> accepted p Seconds \<noteq> {} \<and> accepted p Minutes \<noteq> {} \<and> accepted p Hours \<noteq> {}
       \<and> accepted p Days \<noteq> {} \<and> accepted p Months \<noteq> {} \<and> accepted p DaysOfWeek \<noteq> {}
       \<and> \<bar>1643630400000 :: int\<bar> \<le> 8000000000000000
       \<and> (\<exists>cd. increment (newCronDate 1643630400000) p = Some cd
             \<and> YearFromTime 1643630400000 \<le> years cd
             \<and> years cd \<le> YearFromTime 1643630400000 + 1)"
proof -
  have "case newCronPattern ''* * * * * *'' of
          Inl e \<Rightarrow> False
        | Inr p \<Rightarrow>
            acceptedList p Seconds \<noteq> [] \<and> acceptedList p Minutes \<noteq> []
            \<and> acceptedList p Hours \<noteq> [] \<and> acceptedList p Days \<noteq> []
            \<and> acceptedList p Months \<noteq> [] \<and> acceptedList p DaysOfWeek \<noteq> []"
    by code_simp
  then obtain p where p: "newCronPattern ''* * * * * *'' = Inr p"
    and a: "accepted p Seconds \<noteq> {}" "accepted p Minutes \<noteq> {}" "accepted p Hours \<noteq> {}"
      "accepted p Days \<noteq> {}" "accepted p Months \<noteq> {}" "accepted p DaysOfWeek \<noteq> {}"
    by (cases "newCronPattern ''* * * * * *''") (simp_all add: accepted_eq_list)
  have r: "\<bar>1643630400000 :: int\<bar> \<le> 8000000000000000" by simp
  show ?thesis using C4_increment_terminates_in_range [OF p a r] p a r by blast
qed

section \<open>The day 31 of February\<close>

lemma new_Cron_default:
  assumes "new_Cron h pat NoArg None = Some (Inr (IsCron c))"
  shows "\<exists>p. newCronPattern pat = Inr p \<and> c = \<lparr> cronPattern = p, opts = emptyOptions \<rparr>"
proof (cases "newCronPattern pat")
  case (Inl e)
  then show ?thesis using assms by (simp add: new_Cron_def Cron_body_def)
next
  case (Inr p)
  have v: "validateOpts h emptyOptions = Inr emptyOptions"
    by (simp add: validateOpts_def emptyOptions_def isTruthy_def)
  have "new_Cron h pat NoArg None
          = Some (Inr (IsCron \<lparr> cronPattern = p, opts = emptyOptions \<rparr>))"
    using Inr v by (simp add: new_Cron_def Cron_body_def Let_def)
  with assms have "Some (Inr (IsCron c) :: error + CronOrJob)
      = Some (Inr (IsCron \<lparr> cronPattern = p, opts = emptyOptions \<rparr>))"
    by (rule trans [OF sym])
  then have "c = \<lparr> cronPattern = p, opts = emptyOptions \<rparr>"
    by (simp only: option.inject sum.inject CronOrJob.inject)
  then show ?thesis using Inr by blast
qed

text \<open>
  Claim C1 says that \<^verbatim>\<open>next(r)\<close> is none for the expression \<^verbatim>\<open>* * * 31 2 *\<close> and every
  reference \<open>r\<close>. For the reference 2022-01-31T12:00:00 (time value 1643630400000) the
  code returns 2022-03-03T12:00:01 (time value 1646308801000): the cascade leaves the
  day 31 in the month of index 1, and the \<^verbatim>\<open>Date\<close> constructor counts the days past the
  end of February into March.
\<close>

theorem C1_feb_31_next_is_in_march:
  "\<exists>c. new_Cron \<lparr>Date_parse = (\<lambda>s. None), now = 0\<rparr> ''* * * 31 2 *'' NoArg (None :: unit option)
         = Some (Inr (IsCron c))
       \<and> Cron_next \<lparr>Date_parse = (\<lambda>s. None), now = 0\<rparr> c (Some 1643630400000)
           = Some (Defined (Some 1646308801000))"
proof -
  let ?h = "\<lparr>Date_parse = (\<lambda>s. None), now = 0\<rparr>"
  have "case new_Cron ?h ''* * * 31 2 *'' NoArg (None :: unit option) of
          Some (Inr (IsCron c)) \<Rightarrow>
            Cron_next ?h c (Some 1643630400000) = Some (Defined (Some 1646308801000))
        | _ \<Rightarrow> False"
    by code_simp
  then show ?thesis
    by (rule scheduler_caseE) blast
qed

text \<open>
  Claim C1, as amended: for the expression \<^verbatim>\<open>* * * 31 2 *\<close>, every scheduler whatever
  its options, and every reference instant \<open>r\<close> such that the reference in effect (\<open>r\<close>,
  or \<^verbatim>\<open>startAt\<close> when \<open>r\<close> is earlier) has an absolute time value of at most
  8000000000000000 ms: the increment returns with the day 31 in the month of index 1
  (February), the \<^verbatim>\<open>Date\<close> of these members is a valid instant, and \<^verbatim>\<open>next(r)\<close> returns
  it. The result is none only when the options end the schedule: no runs are left, the
  job is killed, or that instant has reached \<^verbatim>\<open>stopAt\<close>. With default options it is
  never none.
\<close>

theorem C1_feb_31_next_returns_instant:
  assumes p: "newCronPattern ''* * * 31 2 *'' = Inr (cronPattern c)"
    and r: "\<bar>clampToStartAt r (startAt (opts c))\<bar> \<le> 8000000000000000"
  shows "\<exists>cd t. increment (newCronDate (clampToStartAt r (startAt (opts c)))) (cronPattern c)
                  = Some cd
           \<and> days cd = 31 \<and> months cd = 1 \<and> setMilliseconds0 (getDate cd) = Some t
           \<and> Cron_next h c (Some r)
               = Some (if noRunsLeft (maxRuns (opts c)) \<or> kill (opts c) = Some True
                          \<or> reachedStopAt (getDate cd) (stopAt (opts c))
                       then Undefined else Defined (Some t))"
proof -
  define p where "p = cronPattern c"
  define r' where "r' = clampToStartAt r (startAt (opts c))"
  have p: "newCronPattern ''* * * 31 2 *'' = Inr p" using assms(1) by (simp add: p_def)
  have r': "\<bar>r'\<bar> \<le> 8000000000000000" using r by (simp add: r'_def)
  have "case newCronPattern ''* * * 31 2 *'' of
          Inl e \<Rightarrow> False
        | Inr p \<Rightarrow>
            acceptedList p Seconds \<noteq> [] \<and> acceptedList p Minutes \<noteq> []
            \<and> acceptedList p Hours \<noteq> [] \<and> acceptedList p Days = [31]
            \<and> acceptedList p Months = [2] \<and> acceptedList p DaysOfWeek = [0, 1, 2, 3, 4, 5, 6, 7]
            \<and> \<not> truthy (part p Days) (Some (- 1)) \<and> \<not> truthy (part p Months) (Some (- 1))"
    by code_simp
  with p have a: "accepted p Seconds \<noteq> {}" "accepted p Minutes \<noteq> {}" "accepted p Hours \<noteq> {}"
    and ad: "accepted p Days = {31}" and am: "accepted p Months = {2}"
    and aw: "accepted p DaysOfWeek = {0, 1, 2, 3, 4, 5, 6, 7}"
    and k: "\<not> truthy (part p Days) (Some (- 1))" "\<not> truthy (part p Months) (Some (- 1))"
    by (simp_all add: accepted_eq_list)
  have ne: "accepted p Days \<noteq> {}" "accepted p Months \<noteq> {}" "accepted p DaysOfWeek \<noteq> {}"
    using ad am aw by simp_all
  from increment_result [OF p a ne r'] obtain cd i where cd:
    "\<forall>j<5. settled p cd j" "inRange cd"
    "weekdayLoop cd p = Some (cd\<lparr>days := days cd + int i\<rparr>)"
    "increment (newCronDate r') p = Some (cd\<lparr>days := days cd + int i\<rparr>)"
    by blast
  note ok = compiled_shape(2) [OF p]
  have s3: "truthy (part p Days) (Some (days cd - 1))" "days cd - 1 < int (len (part p Days))"
    using cd(1) [rule_format, of 3] by (simp_all add: settled_def tm_simps toff_simps getMember_def)
  have "- 1 \<le> days cd - 1" using ok [of Days] s3(1) unfolding keysOK_def by blast
  moreover have "days cd - 1 \<noteq> - 1" using s3(1) k(1) by auto
  ultimately have "days cd \<in> accepted p Days"
    using s3 by (simp add: accepted_def indexOffset_def)
  then have d: "days cd = 31" using ad by simp
  have s4: "truthy (part p Months) (Some (months cd))" "months cd < int (len (part p Months))"
    using cd(1) [rule_format, of 4] by (simp_all add: settled_def tm_simps toff_simps getMember_def)
  have "- 1 \<le> months cd" using ok [of Months] s4(1) unfolding keysOK_def by blast
  moreover have "months cd \<noteq> - 1" using s4(1) k(2) by auto
  ultimately have "months cd + 1 \<in> accepted p Months"
    using s4 by (simp add: accepted_def indexOffset_def)
  then have m: "months cd = 1" using am by simp
  from getDate_inRange [OF cd(2)] obtain t where t: "getDate cd = Some t"
    "\<bar>t\<bar> \<le> 8200000000000000" "getDay (getDate cd) = Some ((baseDay cd + 4) mod 7)"
    by blast
  have "(baseDay cd + 4) mod 7 \<in> accepted p DaysOfWeek"
  proof -
    have "0 \<le> (baseDay cd + 4) mod 7" "(baseDay cd + 4) mod 7 < 7" by simp_all
    then show ?thesis unfolding aw by (simp; presburger)
  qed
  then have "truthy (part p DaysOfWeek) (getDay (getDate cd))"
    unfolding t(3) by (simp add: accepted_def indexOffset_def)
  then have "weekdayLoop cd p = Some cd" by (subst weekdayLoop.simps) simp
  with cd(3) have e: "cd\<lparr>days := days cd + int i\<rparr> = cd" by simp
  have inc: "increment (newCronDate r') p = Some cd" using cd(4) unfolding e .
  from setMilliseconds0_valid [OF t(2)] obtain t' where t': "setMilliseconds0 (Some t) = Some t'"
    by blast
  have "Cron_next h c (Some r)
          = Some (if noRunsLeft (maxRuns (opts c)) \<or> kill (opts c) = Some True
                     \<or> reachedStopAt (getDate cd) (stopAt (opts c))
                  then Undefined else Defined (Some t'))"
    using inc t(1) t'
    by (simp add: Cron_next_def next_internal_def Let_def p_def [symmetric] r'_def [symmetric])
  then show ?thesis
    using inc d m t(1) t' unfolding p_def r'_def
    by (intro exI [of _ cd] exI [of _ t']) simp
qed

theorem C1_feb_31_next_returns_instant_witness:
  "\<exists>c. new_Cron \<lparr>Date_parse = (\<lambda>s. None), now = 0\<rparr> ''* * * 31 2 *'' NoArg (None :: unit option)
         = Some (Inr (IsCron c))
       \<and> newCronPattern ''* * * 31 2 *'' = Inr (cronPattern c)
       \<and> \<bar>clampToStartAt 1643630400000 (startAt (opts c))\<bar> \<le> 8000000000000000
       \<and> (\<exists>cd t. increment (newCronDate (clampToStartAt 1643630400000 (startAt (opts c))))
                    (cronPattern c) = Some cd
             \<and> days cd = 31 \<and> months cd = 1 \<and> setMilliseconds0 (getDate cd) = Some t
             \<and> Cron_next \<lparr>Date_parse = (\<lambda>s. None), now = 0\<rparr> c (Some 1643630400000)
                 = Some (if noRunsLeft (maxRuns (opts c)) \<or> kill (opts c) = Some True
                            \<or> reachedStopAt (getDate cd) (stopAt (opts c))
                         then Undefined else Defined (Some t)))"
proof -
  let ?h = "\<lparr>Date_parse = (\<lambda>s. None), now = 0\<rparr>"
  have "case new_Cron ?h ''* * * 31 2 *'' NoArg (None :: unit option) of
          Some (Inr (IsCron c)) \<Rightarrow> True
        | _ \<Rightarrow> False"
    by code_simp
  then obtain c where c: "new_Cron ?h ''* * * 31 2 *'' NoArg (None :: unit option)
      = Some (Inr (IsCron c))"
    by (rule scheduler_caseE)
  from new_Cron_default [OF c] obtain p where p: "newCronPattern ''* * * 31 2 *'' = Inr p"
    and c': "c = \<lparr> cronPattern = p, opts = emptyOptions \<rparr>"
    by blast
  have p': "newCronPattern ''* * * 31 2 *'' = Inr (cronPattern c)" using p c' by simp
  have r: "\<bar>clampToStartAt 1643630400000 (startAt (opts c))\<bar> \<le> 8000000000000000"
    by (simp add: c' emptyOptions_def clampToStartAt_def)
  show ?thesis using C1_feb_31_next_returns_instant [OF p' r, of ?h] c p' r by blast
qed

end
